theory Spec2Isabelle
  imports Complex_Main
begin

section \<open>Python values, exceptions and the random generator\<close>

text \<open>
  Exceptions are values: a fallible operation returns \<open>py_error + 'a\<close>, with \<open>Inl\<close> the
  exception that reaches the caller. Floating-point numbers are idealised as exact reals and
  complex numbers; array shapes are assumed to fit (a shape mismatch is outside the model).
\<close>

datatype py_error =
    NameError string
  | AttributeError string
  | TypeError
  | LinAlgError
  | IndexError
  | ZeroDivisionError
  | ValueError
  | OverflowError

text \<open>A value of the options dictionary: a string or a number.\<close>

datatype cfg_val = CStr string | CNum real

definition as_num :: "cfg_val \<Rightarrow> py_error + real" where
  "as_num v = (case v of CNum x \<Rightarrow> Inr x | CStr s \<Rightarrow> Inl TypeError)"

text \<open>\<open>dict.get(key, default)\<close>.\<close>

definition dict_get :: "(string \<rightharpoonup> 'v) \<Rightarrow> string \<Rightarrow> 'v \<Rightarrow> 'v" where
  "dict_get d k dflt = (case d k of None \<Rightarrow> dflt | Some v \<Rightarrow> v)"

text \<open>
  The global generator behind \<open>numpy.random.random()\<close>: the sequence of numbers it will
  return and the number of draws made so far.
\<close>

record rng =
  draws :: "nat \<Rightarrow> real"
  pos :: nat

definition random :: "rng \<Rightarrow> real \<times> rng" where
  "random g = (draws g (pos g), g\<lparr>pos := pos g + 1\<rparr>)"

definition uniform01 :: "rng \<Rightarrow> bool" where
  "uniform01 g \<longleftrightarrow> (\<forall>n. 0 \<le> draws g n \<and> draws g n < 1)"

section \<open>Walkers of \<open>pauxy/walker.py\<close>\<close>

text \<open>
  The fields every walker class shares, and the single-determinant \<open>Walker\<close>. Matrices are
  lists of rows; \<open>inv_ovlp\<close> and \<open>G\<close> hold one matrix per spin block.
\<close>

type_synonym cmat = "complex list list"

record walker =
  weight :: real
  alive :: nat

record gwalker = walker +
  G :: "cmat list"

record sd_walker = gwalker +
  phi :: cmat
  inv_ovlp :: "cmat list"
  nup :: nat
  ot :: complex

text \<open>
  The two \<open>Walkers\<close> classes, of \<open>pauxy/walker.py\<close> and of \<open>pauxy/walkers/handler.py\<close>,
  share the list of walkers and the count \<open>nw\<close>.
\<close>

record 'w ensemble =
  walkers :: "'w list"
  nw :: nat

record 'w walkers = "'w ensemble" +
  pcontrol :: cfg_val
  wmax :: cfg_val
  wmin :: cfg_val
  max_nwalkers :: cfg_val
  min_nwalkers :: cfg_val
  total_weight :: real

definition calculate_total_weight :: "('a walker_scheme) walkers \<Rightarrow> ('a walker_scheme) walkers" where
  "calculate_total_weight W =
     W\<lparr>total_weight := sum_list (map weight (filter (\<lambda>w. alive w \<noteq> 0) (walkers W)))\<rparr>"

definition calculate_nwalkers ::
  "('a walker_scheme, 'z) ensemble_scheme \<Rightarrow> ('a walker_scheme, 'z) ensemble_scheme" where
  "calculate_nwalkers W = W\<lparr>nw := sum_list (map alive (walkers W))\<rparr>"

text \<open>
  \<open>Walkers.__init__\<close>. The walker class is chosen from the trial wave function; the
  constructors are passed in as \<open>mk\<close>, which builds the walker of index \<open>w\<close> with
  weight 1 or raises. \<open>add_field_config\<close> only attaches the field history, which the model
  does not carry.
\<close>

fun build_walkers :: "(nat \<Rightarrow> py_error + 'w) \<Rightarrow> nat list \<Rightarrow> py_error + 'w list" where
  "build_walkers mk [] = Inr []"
| "build_walkers mk (i # is) =
     (case mk i of
        Inl e \<Rightarrow> Inl e
      | Inr w \<Rightarrow> (case build_walkers mk is of Inl e \<Rightarrow> Inl e | Inr ws \<Rightarrow> Inr (w # ws)))"

definition Walkers_init ::
  "(string \<rightharpoonup> cfg_val) \<Rightarrow> (nat \<Rightarrow> py_error + 'a walker_scheme) \<Rightarrow> nat
     \<Rightarrow> py_error + ('a walker_scheme) walkers" where
  "Walkers_init inputs mk nwalkers =
     (case build_walkers mk [0..<nwalkers] of
        Inl e \<Rightarrow> Inl e
      | Inr ws \<Rightarrow>
          Inr (calculate_nwalkers (calculate_total_weight
            \<lparr> walkers = ws,
              nw = 0,
              pcontrol = dict_get inputs ''population_control'' (CStr ''comb''),
              wmax = dict_get inputs ''max_weight'' (CNum 4.0),
              wmin = dict_get inputs ''max_weight'' (CNum 0.05),
              max_nwalkers = dict_get inputs ''maximum_walker_count'' (CNum (1.1 * real nwalkers)),
              min_nwalkers = dict_get inputs ''minimum_walker_count'' (CNum (0.9 * real nwalkers)),
              total_weight = 0 \<rparr>)))"

text \<open>
  \<open>Walkers.rescale_weights\<close>. The total is taken over the walkers that are alive; every
  walker, alive or not, is divided by the factor. A zero divisor raises.
\<close>

definition rescale_weights ::
  "('a walker_scheme) walkers \<Rightarrow> py_error + ('a walker_scheme) walkers" where
  "rescale_weights W0 =
     (let W = calculate_total_weight W0 in
      case as_num (max_nwalkers W) of
        Inl e \<Rightarrow> Inl e
      | Inr m \<Rightarrow>
          if m = 0 then Inl ZeroDivisionError
          else let factor = total_weight W / m in
               if walkers W = [] then Inr W
               else if factor = 0 then Inl ZeroDivisionError
               else Inr (W\<lparr>walkers := map (\<lambda>w. w\<lparr>weight := weight w / factor\<rparr>) (walkers W)\<rparr>))"

text \<open>
  The first loop of \<open>Walkers.branching\<close>: one draw per walker, then the clone and kill
  decisions. The result is the updated list with \<open>iclone\<close>, \<open>nclone\<close>, \<open>ikill\<close> and
  the generator.
\<close>

type_synonym 'w scan = "'w list \<times> nat list \<times> int list \<times> nat list \<times> rng"

fun branching_scan ::
  "cfg_val \<Rightarrow> cfg_val \<Rightarrow> nat \<Rightarrow> ('a walker_scheme) list \<Rightarrow> rng
     \<Rightarrow> py_error + ('a walker_scheme) scan" where
  "branching_scan wmx wmn i [] g = Inr ([], [], [], [], g)"
| "branching_scan wmx wmn i (w # ws) g =
     (let (r, g1) = random g in
      case as_num wmx of
        Inl e \<Rightarrow> Inl e
      | Inr mx \<Rightarrow>
          if weight w > mx then
            (let extra0 = \<lfloor>weight w\<rfloor> - 1;
                 extra = (if weight w - real_of_int (extra0 + 1) > r then extra0 + 1 else extra0)
             in case branching_scan wmx wmn (Suc i) ws g1 of
                  Inl e \<Rightarrow> Inl e
                | Inr (ws', ic, nc, ik, g') \<Rightarrow>
                    Inr (w\<lparr>weight := 1\<rparr> # ws', i # ic, extra # nc, ik, g'))
          else
            (case as_num wmn of
               Inl e \<Rightarrow> Inl e
             | Inr mn \<Rightarrow>
                 (case branching_scan wmx wmn (Suc i) ws g1 of
                    Inl e \<Rightarrow> Inl e
                  | Inr (ws', ic, nc, ik, g') \<Rightarrow>
                      if weight w < mn \<and> weight w < r
                      then Inr (w\<lparr>alive := 0\<rparr> # ws', ic, nc, i # ik, g')
                      else Inr (w # ws', ic, nc, ik, g'))))"

text \<open>
  The second loop: each clone goes into the slot of a killed walker while one is left, and
  to the end of the list afterwards.
\<close>

fun place_copies :: "'w list \<Rightarrow> nat list \<Rightarrow> nat \<Rightarrow> nat \<Rightarrow> nat \<Rightarrow> 'w list \<times> nat" where
  "place_copies ws ikill ncopy ic 0 = (ws, ncopy)"
| "place_copies ws ikill ncopy ic (Suc n) =
     (if ncopy \<ge> length ikill then place_copies (ws @ [ws ! ic]) ikill ncopy ic n
      else place_copies (ws[ikill ! ncopy := ws ! ic]) ikill (ncopy + 1) ic n)"

fun place_clones :: "'w list \<Rightarrow> nat list \<Rightarrow> nat \<Rightarrow> (nat \<times> int) list \<Rightarrow> 'w list" where
  "place_clones ws ikill ncopy [] = ws"
| "place_clones ws ikill ncopy ((ic, nc) # rest) =
     (let (ws', ncopy') = place_copies ws ikill ncopy ic (nat nc)
      in place_clones ws' ikill ncopy' rest)"

text \<open>
  \<open>Walkers.branching\<close>: the weights are rescaled, then the walkers are scanned, the
  clones placed, and the list sorted. The final sort is stable and descending in \<open>alive\<close>.
\<close>

definition branching_tail ::
  "('a walker_scheme) walkers \<Rightarrow> rng \<Rightarrow> py_error + (('a walker_scheme) walkers \<times> rng)" where
  "branching_tail W g =
     (case branching_scan (wmax W) (wmin W) 0 (walkers W) g of
        Inl e \<Rightarrow> Inl e
      | Inr (ws, iclone, nclone, ikill, g') \<Rightarrow>
          let ws' = place_clones ws ikill 0 (zip iclone nclone);
              sorted_ws = sort_key (\<lambda>w. - int (alive w)) ws'
          in Inr (calculate_nwalkers (calculate_total_weight (W\<lparr>walkers := sorted_ws\<rparr>)), g'))"

definition branching ::
  "('a walker_scheme) walkers \<Rightarrow> rng \<Rightarrow> py_error + (('a walker_scheme) walkers \<times> rng)" where
  "branching W0 g =
     (case rescale_weights W0 of
        Inl e \<Rightarrow> Inl e
      | Inr W \<Rightarrow> branching_tail W g)"

section \<open>Comb population control\<close>

text \<open>\<open>numpy.cumsum\<close>.\<close>

fun cumsum_from :: "real \<Rightarrow> real list \<Rightarrow> real list" where
  "cumsum_from a [] = []"
| "cumsum_from a (x # xs) = (a + x) # cumsum_from (a + x) xs"

definition cumsum :: "real list \<Rightarrow> real list" where
  "cumsum xs = cumsum_from 0 xs"

text \<open>The teeth of the comb: \<open>[(i+r) * (total_weight/(ntarget)) for i in range(ntarget)]\<close>.\<close>

definition comb_teeth :: "real \<Rightarrow> real \<Rightarrow> nat \<Rightarrow> real list" where
  "comb_teeth r tot ntarget = map (\<lambda>i. (real i + r) * (tot / real ntarget)) [0..<ntarget]"

subsection \<open>The bucket scan of \<open>pauxy/walker.py\<close>\<close>

text \<open>
  The inner loop: the index of the first cumulative sum above the tooth, if there is one.
\<close>

fun scan_bucket :: "real \<Rightarrow> real list \<Rightarrow> nat \<Rightarrow> nat option" where
  "scan_bucket c [] iw = None"
| "scan_bucket c (w # ws) iw = (if c < w then Some iw else scan_bucket c ws (Suc iw))"

text \<open>The outer loop writes the index found for tooth \<open>ic\<close> to \<open>parent_ix[ic]\<close>.\<close>

fun assign_scan :: "real list \<Rightarrow> real list \<Rightarrow> nat \<Rightarrow> nat list \<Rightarrow> py_error + nat list" where
  "assign_scan [] cprobs ic parent_ix = Inr parent_ix"
| "assign_scan (c # cs) cprobs ic parent_ix =
     (case scan_bucket c cprobs 0 of
        None \<Rightarrow> assign_scan cs cprobs (Suc ic) parent_ix
      | Some iw \<Rightarrow>
          if ic < length parent_ix then assign_scan cs cprobs (Suc ic) (parent_ix[ic := iw])
          else Inl IndexError)"

text \<open>
  What the coordinating rank computes in \<open>Walkers.comb\<close> of \<open>pauxy/walker.py\<close> from the
  gathered weights: \<open>parent_ix\<close> starts as \<open>arange\<close> and receives the parent of each tooth.
\<close>

definition comb_parents :: "real list \<Rightarrow> nat \<Rightarrow> nat \<Rightarrow> real \<Rightarrow> py_error + nat list" where
  "comb_parents global_weights nw_local nprocs r =
     (let tot = sum_list global_weights;
          cprobs = cumsum global_weights;
          ntarget = nw_local * nprocs
      in assign_scan (comb_teeth r tot ntarget) cprobs 0 [0..<length global_weights])"

subsection \<open>The incremental count of \<open>pauxy/walkers/handler.py\<close>\<close>

text \<open>
  The \<open>while\<close> loop: teeth and cumulative sums are advanced together, \<open>parent_ix[iw]\<close>
  counts the teeth given to walker \<open>iw\<close>. Reading \<open>cprobs\<close> past its end raises.
\<close>

function comb_count ::
  "real list \<Rightarrow> real list \<Rightarrow> nat \<Rightarrow> nat \<Rightarrow> nat list \<Rightarrow> py_error + nat list" where
  "comb_count comb cprobs ic iw parent_ix =
     (if ic < length comb then
        (if iw < length cprobs then
           (if comb ! ic < cprobs ! iw
            then comb_count comb cprobs (ic + 1) iw (parent_ix[iw := parent_ix ! iw + 1])
            else comb_count comb cprobs ic (iw + 1) parent_ix)
         else Inl IndexError)
      else Inr parent_ix)"
  by pat_completeness auto
termination
  by (relation "measure (\<lambda>(comb, cprobs, ic, iw, p). (length comb - ic) + (length cprobs - iw))")
     auto

text \<open>What the coordinating rank computes in \<open>Walkers.comb\<close> of the handler.\<close>

definition comb_counts :: "real list \<Rightarrow> nat \<Rightarrow> nat \<Rightarrow> real \<Rightarrow> py_error + nat list" where
  "comb_counts global_weights nw_local csize r =
     (let tot = sum_list global_weights;
          cprobs = cumsum global_weights;
          ntarget = nw_local * csize
      in comb_count (comb_teeth r tot ntarget) cprobs 0 0 (replicate (length global_weights) 0))"

text \<open>
  The walkers the handler holds carry the ensemble's total weight besides the common
  fields; it is \<open>None\<close> where \<open>set_total_weight\<close> was handed \<open>None\<close>.
\<close>

record h_walker = gwalker +
  total_weight_w :: "real option"

record 'w handler = "'w ensemble" +
  nwalkers :: nat
  ntot_walkers :: nat
  stack_size :: nat

definition set_total_weight ::
  "real option \<Rightarrow> ('a h_walker_scheme) handler \<Rightarrow> ('a h_walker_scheme) handler" where
  "set_total_weight t H = H\<lparr>walkers := map (\<lambda>w. w\<lparr>total_weight_w := t\<rparr>) (walkers H)\<rparr>"

text \<open>
  The communicator as one process sees it: its rank, the number of processes, whether it
  is the \<open>FakeComm\<close> of a run without MPI, and what the calls that bring data from other
  processes leave behind: \<open>Gather\<close> the contents of the root's \<open>global_weights\<close> given the
  root's own weights, \<open>Bcast\<close> the contents of \<open>parent_ix\<close> on a process other than the
  root, \<open>comm_recv\<close> the buffer received from a source with a tag.
\<close>

record 'b comm =
  rank :: nat
  comm_size :: nat
  is_FakeComm :: bool
  Gather :: "real list \<Rightarrow> real list"
  Bcast :: "nat list"
  comm_recv :: "nat \<Rightarrow> nat \<Rightarrow> 'b"

text \<open>
  The \<open>send\<close> and \<open>recv\<close> lists: a walker counted zero times receives, a walker counted
  \<open>w > 1\<close> times sends \<open>w - 1\<close> copies. Entries are (rank, local index).
\<close>

fun comb_lists ::
  "nat \<Rightarrow> nat \<Rightarrow> nat list \<Rightarrow> py_error + ((nat \<times> nat) list \<times> (nat \<times> nat) list)" where
  "comb_lists n i [] = Inr ([], [])"
| "comb_lists n i (w # ps) =
     (if w = 1 then comb_lists n (Suc i) ps
      else if n = 0 then Inl ZeroDivisionError
      else (case comb_lists n (Suc i) ps of
              Inl e \<Rightarrow> Inl e
            | Inr (send, recv) \<Rightarrow>
                if w = 0 then Inr (send, (i div n, i mod n) # recv)
                else Inr (replicate (w - 1) (i div n, i mod n) @ send, recv)))"

text \<open>
  The first loop of the exchange, run by the process of rank \<open>k\<close>: for pair number \<open>i\<close>
  whose sender is on this process, the sender's buffer is taken and sent to the rank of the
  receiver with tag \<open>i\<close>. The result lists (tag, destination, buffer); the buffers in this
  order are \<open>walker_buffers\<close>. \<open>get_buffer\<close> and \<open>set_buffer\<close> are the methods of the
  walker class.
\<close>

fun collect_buffers ::
  "('w \<Rightarrow> 'b) \<Rightarrow> nat \<Rightarrow> nat \<Rightarrow> 'w list \<Rightarrow> ((nat \<times> nat) \<times> (nat \<times> nat)) list
     \<Rightarrow> py_error + (nat \<times> nat \<times> 'b) list" where
  "collect_buffers gb k i ws [] = Inr []"
| "collect_buffers gb k i ws ((s, r) # prs) =
     (if k = fst s then
        (if snd s < length ws then
           (case collect_buffers gb k (Suc i) ws prs of
              Inl e \<Rightarrow> Inl e
            | Inr ms \<Rightarrow> Inr ((i, fst r, gb (ws ! snd s)) # ms))
         else Inl IndexError)
      else collect_buffers gb k (Suc i) ws prs)"

text \<open>
  The second loop: with the \<open>FakeComm\<close> the receiver of pair \<open>i\<close> is handed
  \<open>walker_buffers[i]\<close>; otherwise a receiver on this process is handed what \<open>comm.recv\<close>
  returns for the sender's rank and tag \<open>i\<close>.
\<close>

fun apply_buffers ::
  "('w \<Rightarrow> 'b \<Rightarrow> 'w) \<Rightarrow> 'b comm \<Rightarrow> 'b list \<Rightarrow> nat \<Rightarrow> ((nat \<times> nat) \<times> (nat \<times> nat)) list
     \<Rightarrow> 'w list \<Rightarrow> py_error + 'w list" where
  "apply_buffers sb c bufs i [] ws = Inr ws"
| "apply_buffers sb c bufs i ((s, r) # prs) ws =
     (if is_FakeComm c then
        (if i < length bufs \<and> snd r < length ws
         then apply_buffers sb c bufs (Suc i) prs (ws[snd r := sb (ws ! snd r) (bufs ! i)])
         else Inl IndexError)
      else if rank c = fst r then
        (if snd r < length ws
         then apply_buffers sb c bufs (Suc i) prs (ws[snd r := sb (ws ! snd r) (comm_recv c (fst s) i)])
         else Inl IndexError)
      else apply_buffers sb c bufs (Suc i) prs ws)"

text \<open>
  \<open>Walkers.comb\<close> of the handler, as one process runs it. Only the root draws; the other
  processes take \<open>parent_ix\<close> from the broadcast and keep \<open>total_weight = None\<close>, the
  value of \<open>comm.bcast\<close> being dropped. The result is the handler, the generator and
  the messages this process has sent.
\<close>

definition comb ::
  "('a h_walker_scheme \<Rightarrow> 'b) \<Rightarrow> ('a h_walker_scheme \<Rightarrow> 'b \<Rightarrow> 'a h_walker_scheme)
     \<Rightarrow> 'b comm \<Rightarrow> ('a h_walker_scheme) handler \<Rightarrow> rng
     \<Rightarrow> py_error + (('a h_walker_scheme) handler \<times> rng \<times> (nat \<times> nat \<times> 'b) list)" where
  "comb gb sb c H g =
     (let weights = map (\<lambda>w. \<bar>weight w\<bar>) (walkers H) in
      if ntot_walkers H = 1 then
        (case walkers H of
           [] \<Rightarrow> Inl IndexError
         | w # ws \<Rightarrow> Inr (H\<lparr>walkers := w\<lparr>weight := 1\<rparr> # ws\<rparr>, g, []))
      else
        (case (if rank c = 0 then
                 (let global_weights = Gather c weights;
                      (r, g') = random g
                  in case comb_counts global_weights (nw H) (comm_size c) r of
                       Inl e \<Rightarrow> Inl e
                     | Inr parent_ix \<Rightarrow> Inr (parent_ix, Some (sum_list global_weights), g'))
               else Inr (Bcast c, None, g)) of
           Inl e \<Rightarrow> Inl e
         | Inr (parent_ix, tw, g') \<Rightarrow>
             (let H1 = set_total_weight tw H in
              case comb_lists (nw H1) 0 parent_ix of
                Inl e \<Rightarrow> Inl e
              | Inr (send, recv) \<Rightarrow>
                  (case collect_buffers gb (rank c) 0 (walkers H1) (zip send recv) of
                     Inl e \<Rightarrow> Inl e
                   | Inr msgs \<Rightarrow>
                       (case apply_buffers sb c (map (\<lambda>m. snd (snd m)) msgs) 0 (zip send recv)
                               (walkers H1) of
                          Inl e \<Rightarrow> Inl e
                        | Inr ws \<Rightarrow>
                            Inr (H1\<lparr>walkers := map (\<lambda>w. w\<lparr>weight := 1\<rparr>) ws\<rparr>, g', msgs))))))"

declare comb_count.simps [simp del]

text \<open>
  The first walker whose cumulative weight sum exceeds the point \<open>c\<close>: walker \<open>j\<close> has a
  cumulative sum above \<open>c\<close> and no walker before it has.
\<close>

definition first_exceeding :: "real list \<Rightarrow> real \<Rightarrow> nat \<Rightarrow> bool" where
  "first_exceeding cprobs c j \<longleftrightarrow>
     j < length cprobs \<and> c < cprobs ! j \<and> (\<forall>j'<j. \<not> c < cprobs ! j')"

section \<open>Arrays\<close>

text \<open>
  The \<open>numpy\<close> operations the sources use, on vectors as lists and matrices as lists of
  rows: \<open>dot\<close> in its vector-vector, vector-matrix and matrix-matrix forms, \<open>outer\<close>,
  subtraction, scaling, division by a scalar and transposition.
\<close>

definition vdot :: "'a::semiring_0 list \<Rightarrow> 'a list \<Rightarrow> 'a" where
  "vdot u v = sum_list (map (\<lambda>(a, b). a * b) (zip u v))"

definition col :: "'a list list \<Rightarrow> nat \<Rightarrow> 'a list" where
  "col A j = map (\<lambda>row. row ! j) A"

definition ncols :: "'a list list \<Rightarrow> nat" where
  "ncols A = (case A of [] \<Rightarrow> 0 | row # rest \<Rightarrow> length row)"

definition mat_mul :: "'a::semiring_0 list list \<Rightarrow> 'a list list \<Rightarrow> 'a list list" where
  "mat_mul A B = map (\<lambda>row. map (\<lambda>j. vdot row (col B j)) [0..<ncols B]) A"

definition vec_mat :: "'a::semiring_0 list \<Rightarrow> 'a list list \<Rightarrow> 'a list" where
  "vec_mat v A = map (\<lambda>j. vdot v (col A j)) [0..<ncols A]"

definition outer :: "'a::semiring_0 list \<Rightarrow> 'a list \<Rightarrow> 'a list list" where
  "outer u v = map (\<lambda>a. map (\<lambda>b. a * b) v) u"

definition mat_sub :: "'a::ring list list \<Rightarrow> 'a list list \<Rightarrow> 'a list list" where
  "mat_sub A B = map (\<lambda>(r, s). map (\<lambda>(a, b). a - b) (zip r s)) (zip A B)"

definition mat_scale :: "'a::semiring_0 \<Rightarrow> 'a list list \<Rightarrow> 'a list list" where
  "mat_scale c A = map (map (\<lambda>x. c * x)) A"

definition mat_sdiv :: "'a::field list list \<Rightarrow> 'a \<Rightarrow> 'a list list" where
  "mat_sdiv A c = map (map (\<lambda>x. x / c)) A"

definition mat_T :: "'a list list \<Rightarrow> 'a list list" where
  "mat_T A = map (col A) [0..<ncols A]"

definition mat_conj :: "cmat \<Rightarrow> cmat" where
  "mat_conj A = map (map cnj) A"

text \<open>An \<open>n\<close> by \<open>m\<close> array.\<close>

definition is_mat :: "nat \<Rightarrow> nat \<Rightarrow> 'a list list \<Rightarrow> bool" where
  "is_mat n m A \<longleftrightarrow> length A = n \<and> (\<forall>row\<in>set A. length row = m)"

section \<open>Constrained discrete propagation of \<open>pauxy/thermal_propagation/hubbard.py\<close>\<close>

text \<open>
  The attributes of \<open>ThermalDiscrete\<close> that the constrained propagator reads or writes;
  \<open>BH1\<close> and \<open>nstblz\<close> are shared with the continuous propagator.
  \<open>delta\<close> and \<open>auxf\<close> are indexed by field, then spin; \<open>BV\<close> by spin, then site.
\<close>

record prop_base =
  BH1 :: "cmat list"
  nstblz :: nat

record thermal_discrete = prop_base +
  delta :: cmat
  auxf :: cmat
  BV :: cmat
  BT :: "cmat list"
  BT_inv :: "cmat list"

text \<open>
  A thermal walker carries a propagator stack. The stack class and the walker's stabilised
  \<open>greens_function\<close> are not part of the sources at hand; they are passed in.
\<close>

record 'st thermal_walker = h_walker +
  stack :: 'st

record 'st stack_api =
  api_update :: "'st \<Rightarrow> cmat list \<Rightarrow> 'st"
  api_time_slice :: "'st \<Rightarrow> nat"
  api_ntime_slices :: "'st \<Rightarrow> nat"
  api_greens_function :: "'st \<Rightarrow> int \<Rightarrow> cmat list"

text \<open>\<open>calculate_overlap_ratio\<close>: the two ratios of site \<open>i\<close>, fields 0 and 1.\<close>

definition calculate_overlap_ratio ::
  "thermal_discrete \<Rightarrow> ('a gwalker_scheme) \<Rightarrow> nat \<Rightarrow> complex \<times> complex" where
  "calculate_overlap_ratio P w i =
     (let R1_up = 1 + (1 - G w ! 0 ! i ! i) * (delta P ! 0 ! 0);
          R1_dn = 1 + (1 - G w ! 1 ! i ! i) * (delta P ! 0 ! 1);
          R2_up = 1 + (1 - G w ! 0 ! i ! i) * (delta P ! 1 ! 0);
          R2_dn = 1 + (1 - G w ! 1 ! i ! i) * (delta P ! 1 ! 1)
      in (0.5 * (R1_up * R1_dn), 0.5 * (R2_up * R2_dn)))"

text \<open>\<open>update_greens_function\<close>, one spin block and then the whole walker.\<close>

definition update_block :: "cmat \<Rightarrow> complex \<Rightarrow> nat \<Rightarrow> cmat" where
  "update_block Gs d i =
     (let g = col Gs i;
          gbar = (map uminus (Gs ! i))[i := - (Gs ! i ! i) + 1];
          denom = 1 + (1 - g ! i) * d
      in mat_sub Gs (mat_sdiv (mat_scale d (outer g gbar)) denom))"

definition update_greens_function ::
  "thermal_discrete \<Rightarrow> ('a gwalker_scheme) \<Rightarrow> nat \<Rightarrow> nat \<Rightarrow> ('a gwalker_scheme)" where
  "update_greens_function P w i xi =
     w\<lparr>G := [update_block (G w ! 0) (delta P ! xi ! 0) i,
              update_block (G w ! 1) (delta P ! xi ! 1) i]\<rparr>"

text \<open>
  The body of the loop over the sites in \<open>propagate_walker_constrained\<close>, on the walker,
  the propagator (whose \<open>BV\<close> is written) and the generator.
\<close>

definition constrained_site ::
  "real \<Rightarrow> nat \<Rightarrow> ('a gwalker_scheme) \<times> thermal_discrete \<times> rng
     \<Rightarrow> ('a gwalker_scheme) \<times> thermal_discrete \<times> rng" where
  "constrained_site eshift i st =
     (case st of (w, P, g) \<Rightarrow>
        let probs = calculate_overlap_ratio P w i;
            phaseless_ratio = (max (Re (fst probs)) 0, max (Re (snd probs)) 0);
            norm_c = fst phaseless_ratio + snd phaseless_ratio;
            (r, g') = random g
        in if norm_c > 0 then
             (let w1 = w\<lparr>weight := weight w * norm_c * exp eshift\<rparr>;
                  xi = (if r < fst phaseless_ratio / norm_c then 0 else 1);
                  w2 = update_greens_function P w1 i xi;
                  BV1 = (BV P)[0 := (BV P ! 0)[i := auxf P ! xi ! 0]];
                  BV2 = BV1[1 := (BV1 ! 1)[i := auxf P ! xi ! 1]]
              in (w2, P\<lparr>BV := BV2\<rparr>, g'))
           else (w\<lparr>weight := 0\<rparr>, P, g'))"

fun constrained_sites ::
  "real \<Rightarrow> nat list \<Rightarrow> ('a gwalker_scheme) \<times> thermal_discrete \<times> rng
     \<Rightarrow> ('a gwalker_scheme) \<times> thermal_discrete \<times> rng" where
  "constrained_sites eshift [] st = st"
| "constrained_sites eshift (i # sites) st =
     constrained_sites eshift sites (constrained_site eshift i st)"

text \<open>\<open>propagate_greens_function\<close>.\<close>

definition propagate_greens_function ::
  "'st stack_api \<Rightarrow> thermal_discrete \<Rightarrow> ('st, 'a) thermal_walker_scheme
     \<Rightarrow> ('st, 'a) thermal_walker_scheme" where
  "propagate_greens_function api P w =
     (if api_time_slice api (stack w) < api_ntime_slices api (stack w)
      then w\<lparr>G := [mat_mul (mat_mul (BT P ! 0) (G w ! 0)) (BT_inv P ! 0),
                    mat_mul (mat_mul (BT P ! 1) (G w ! 1)) (BT_inv P ! 1)]\<rparr>
      else w)"

text \<open>
  \<open>propagate_walker_constrained\<close>: the sweep over the \<open>nbasis\<close> sites, then the stack
  update with \<open>B[k,i,j] = BV[k,i] * BH1[k,i,j]\<close>, the periodic recomputation of the
  Green's function and its propagation to the next slice.
\<close>

definition propagate_walker_constrained ::
  "'st stack_api \<Rightarrow> nat \<Rightarrow> real
     \<Rightarrow> ('st, 'a) thermal_walker_scheme \<times> thermal_discrete \<times> rng
     \<Rightarrow> py_error + (('st, 'a) thermal_walker_scheme \<times> thermal_discrete \<times> rng)" where
  "propagate_walker_constrained api nbasis eshift st =
     (case constrained_sites eshift [0..<nbasis] st of (w, P, g) \<Rightarrow>
        let B = map (\<lambda>(bv, bh). map (\<lambda>(b, row). map (\<lambda>x. b * x) row) (zip bv bh))
                    (zip (BV P) (BH1 P));
            w1 = w\<lparr>stack := api_update api (stack w) B\<rparr>
        in if nstblz P = 0 then Inl ZeroDivisionError
           else
             (let w2 = (if api_time_slice api (stack w1) mod nstblz P = 0
                        then w1\<lparr>G := api_greens_function api (stack w1)
                                         (int (api_time_slice api (stack w1)) - 1)\<rparr>
                        else w1)
              in Inr (propagate_greens_function api P w2, P, g)))"

section \<open>Sherman-Morrison and the inverse overlap of a walker\<close>

text \<open>\<open>sherman_morrison\<close> of \<open>pauxy/utils/linalg.py\<close>.\<close>

definition sherman_morrison :: "'a::field list list \<Rightarrow> 'a list \<Rightarrow> 'a list \<Rightarrow> 'a list list" where
  "sherman_morrison Ainv u vt =
     mat_sub Ainv
       (mat_sdiv (mat_mul (mat_mul Ainv (outer u vt)) Ainv) (1 + vdot (vec_mat vt Ainv) u))"

text \<open>Matrix sum, the identity, and what it means to be the inverse of a square matrix.\<close>

definition mat_add :: "'a::semiring_0 list list \<Rightarrow> 'a list list \<Rightarrow> 'a list list" where
  "mat_add A B = map (\<lambda>(r, s). map (\<lambda>(a, b). a + b) (zip r s)) (zip A B)"

definition mat_id :: "nat \<Rightarrow> 'a::zero_neq_one list list" where
  "mat_id n = map (\<lambda>i. map (\<lambda>j. if i = j then 1 else 0) [0..<n]) [0..<n]"

definition is_inverse :: "nat \<Rightarrow> 'a::field list list \<Rightarrow> 'a list list \<Rightarrow> bool" where
  "is_inverse n A B \<longleftrightarrow>
     is_mat n n A \<and> is_mat n n B \<and> mat_mul A B = mat_id n \<and> mat_mul B A = mat_id n"

text \<open>
  The overlap matrices of \<open>Walker.inverse_overlap\<close>:
  \<open>(trial[:,:nup].conj()).T.dot(phi[:,:nup])\<close> and the same with the columns from
  \<open>nup\<close> on.
\<close>

definition overlap_up :: "cmat \<Rightarrow> cmat \<Rightarrow> nat \<Rightarrow> cmat" where
  "overlap_up trial ph n = mat_mul (mat_T (mat_conj (map (take n) trial))) (map (take n) ph)"

definition overlap_down :: "cmat \<Rightarrow> cmat \<Rightarrow> nat \<Rightarrow> cmat" where
  "overlap_down trial ph n = mat_mul (mat_T (mat_conj (map (drop n) trial))) (map (drop n) ph)"

text \<open>
  \<open>Walker.inverse_overlap\<close>. \<open>scipy.linalg.inv\<close> is passed in as \<open>linv\<close>; it raises on
  a singular matrix. The walker is changed in place, so the result is the exception, if
  any, together with the walker as the call leaves it.
\<close>

definition inverse_overlap ::
  "(cmat \<Rightarrow> py_error + cmat) \<Rightarrow> cmat \<Rightarrow> ('a sd_walker_scheme)
     \<Rightarrow> py_error option \<times> ('a sd_walker_scheme)" where
  "inverse_overlap linv trial w =
     (case linv (overlap_up trial (phi w) (nup w)) of
        Inl e \<Rightarrow> (Some e, w)
      | Inr a \<Rightarrow>
          (let w1 = w\<lparr>inv_ovlp := (inv_ovlp w)[0 := a]\<rparr> in
           case linv (overlap_down trial (phi w1) (nup w1)) of
             Inl e \<Rightarrow> (Some e, w1)
           | Inr b \<Rightarrow> (None, w1\<lparr>inv_ovlp := (inv_ovlp w1)[1 := b]\<rparr>)))"

text \<open>\<open>Walker.update_inverse_overlap\<close>, \<open>trial_psi\<close> being \<open>trial.psi\<close>.\<close>

definition update_inverse_overlap ::
  "cmat \<Rightarrow> complex list \<Rightarrow> complex list \<Rightarrow> nat \<Rightarrow> ('a sd_walker_scheme)
     \<Rightarrow> ('a sd_walker_scheme)" where
  "update_inverse_overlap trial_psi vtup vtdown i w =
     (let w1 = w\<lparr>inv_ovlp := (inv_ovlp w)[0 :=
                   sherman_morrison (inv_ovlp w ! 0) (map cnj (take (nup w) (trial_psi ! i))) vtup]\<rparr>
      in w1\<lparr>inv_ovlp := (inv_ovlp w1)[1 :=
                   sherman_morrison (inv_ovlp w1 ! 1) (map cnj (drop (nup w1) (trial_psi ! i))) vtdown]\<rparr>)"

text \<open>
  The change of the amplitude at one site: row \<open>i\<close> of \<open>phi\<close> moves by the vector
  \<open>vtup\<close> followed by \<open>vtdown\<close>.
\<close>

definition shift_site :: "cmat \<Rightarrow> nat \<Rightarrow> complex list \<Rightarrow> cmat" where
  "shift_site ph i vt = ph[i := map (\<lambda>(a, b). a + b) (zip (ph ! i) vt)]"

text \<open>\<open>Walker.calc_otrial\<close> needs the determinant, which is passed in.\<close>

definition calc_otrial :: "(cmat \<Rightarrow> complex) \<Rightarrow> ('a sd_walker_scheme) \<Rightarrow> complex" where
  "calc_otrial det w = 1 / (det (inv_ovlp w ! 0) * det (inv_ovlp w ! 1))"

text \<open>\<open>Walker.greens_function\<close>.\<close>

definition greens_function :: "cmat \<Rightarrow> ('a sd_walker_scheme) \<Rightarrow> ('a sd_walker_scheme)" where
  "greens_function trial_psi w =
     w\<lparr>G := [mat_T (mat_mul (mat_mul (map (take (nup w)) (phi w)) (inv_ovlp w ! 0))
                             (mat_T (mat_conj (map (take (nup w)) trial_psi)))),
              mat_T (mat_mul (mat_mul (map (drop (nup w)) (phi w)) (inv_ovlp w ! 1))
                             (mat_T (mat_conj (map (drop (nup w)) trial_psi))))]\<rparr>"

text \<open>
  \<open>linv\<close> behaves as \<open>scipy.linalg.inv\<close> at the matrix \<open>M\<close> of order \<open>k\<close>: when
  \<open>M\<close> has an inverse, that inverse is returned.
\<close>

definition inverts_at :: "(cmat \<Rightarrow> py_error + cmat) \<Rightarrow> nat \<Rightarrow> cmat \<Rightarrow> bool" where
  "inverts_at linv k M \<longleftrightarrow> (\<forall>X. is_inverse k M X \<longrightarrow> linv M = Inr X)"

section \<open>The continuous propagator of \<open>pauxy/propagation/continuous.py\<close>\<close>

text \<open>
  \<open>system\<close> as the propagator reads it, the options and the QMC parameters of the
  constructor, and the object behind \<open>self.propagator\<close> with its two methods.
\<close>

record system =
  nfields :: nat
  sys_nup :: nat
  sys_ndown :: nat

record prop_options =
  opt_free_projection :: "bool option"
  opt_expansion_order :: "nat option"

record qmc_opts =
  q_dt :: real
  q_nstblz :: nat

record hs_propagator =
  construct_force_bias :: "system \<Rightarrow> cmat list \<Rightarrow> complex list"
  construct_VHS :: "system \<Rightarrow> complex list \<Rightarrow> cmat"

datatype pw_mode = Free | Phaseless

text \<open>
  The attributes of a \<open>Continuous\<close> object. \<open>propagate_walker\<close> is assigned on some
  paths of the constructor only; \<open>propagator\<close> and \<open>mf_shift\<close> are read by the methods
  and assigned by no statement of the class, so they are present only if something else
  has supplied them.
\<close>

record continuous = prop_base +
  free_projection :: bool
  exp_nmax :: nat
  dt :: real
  sqrt_dt :: real
  isqrt_dt :: complex
  num_vplus :: nat
  vbias :: "complex list"
  mf_const_fac :: complex
  BT_BP :: "cmat list"
  Temp :: cmat
  ebound :: real
  mean_local_energy :: real
  propagate_walker :: "pw_mode option"
  propagator :: "hs_propagator option"
  mf_shift :: "complex list option"

text \<open>
  The global names of the module that the methods read. \<open>numpy\<close>, \<open>cmath\<close> and \<open>math\<close>
  tell whether the name is bound to the library of that name; \<open>kinetic_real\<close> and
  \<open>shifted\<close> are the values the names stand for, if the module binds them.
\<close>

record module_env =
  numpy :: bool
  cmath :: bool
  math :: bool
  kinetic_real :: "(cmat \<Rightarrow> system \<Rightarrow> cmat list \<Rightarrow> cmat) option"
  shifted :: "complex list option"

text \<open>
  The module as \<open>continuous.py\<close> stands: the file has no import statement and no assignment
  at module level, so the class is the only global name it binds.
\<close>

definition continuous_py :: module_env where
  "continuous_py = \<lparr>numpy = False, cmath = False, math = False,
                     kinetic_real = None, shifted = None\<rparr>"

text \<open>The walker this propagator works on has a phase besides the fields of \<open>Walker\<close>.\<close>

record sdet_walker = sd_walker +
  phase :: complex

text \<open>
  \<open>Continuous.__init__\<close>, statement by statement: \<open>numpy.zeros\<close> needs the name
  \<open>numpy\<close>; the method \<open>construct_one_body_propagator\<close> is called but not defined in the
  class, it is passed in (\<open>None\<close> when nothing defines it) and yields \<open>BH1\<close>; the bound
  on the energy divides by \<open>dt\<close>.
\<close>

definition Continuous_init ::
  "module_env \<Rightarrow> prop_options \<Rightarrow> qmc_opts \<Rightarrow> system \<Rightarrow> cmat \<Rightarrow> bool
     \<Rightarrow> (system \<Rightarrow> real \<Rightarrow> cmat list) option \<Rightarrow> py_error + continuous" where
  "Continuous_init env options qmc sys trial_psi verbose cobp =
     (if \<not> numpy env then Inl (NameError ''numpy'')
      else
        (case cobp of
           None \<Rightarrow> Inl (AttributeError ''construct_one_body_propagator'')
         | Some f \<Rightarrow>
             if q_dt qmc = 0 then Inl ZeroDivisionError
             else
               (let fp = (case opt_free_projection options of None \<Rightarrow> False | Some b \<Rightarrow> b) in
                Inr \<lparr> BH1 = f sys (q_dt qmc),
                      nstblz = q_nstblz qmc,
                      free_projection = fp,
                      exp_nmax = (case opt_expansion_order options of None \<Rightarrow> 4 | Some k \<Rightarrow> k),
                      dt = q_dt qmc,
                      sqrt_dt = sqrt (q_dt qmc),
                      isqrt_dt = \<i> * complex_of_real (sqrt (q_dt qmc)),
                      num_vplus = nfields sys div 2,
                      vbias = replicate (nfields sys) 0,
                      mf_const_fac = 1,
                      BT_BP = f sys (q_dt qmc),
                      Temp = map (\<lambda>row. map (\<lambda>x. 0) (take (sys_nup sys) row)) trial_psi,
                      ebound = sqrt (2 / q_dt qmc),
                      mean_local_energy = 0,
                      propagate_walker = (if fp \<and> verbose then Some Free
                                          else if verbose then Some Phaseless else None),
                      propagator = None,
                      mf_shift = None \<rparr>)))"

text \<open>
  \<open>apply_exponential\<close>: the Taylor series of \<open>exp(VHS)\<close> applied to \<open>phi\<close>, term by
  term; the result is the new \<open>phi\<close> and the last term, which stays in \<open>self.Temp\<close>.
  \<open>numpy.copyto\<close> needs the name \<open>numpy\<close>.
\<close>

fun exp_terms :: "cmat \<Rightarrow> nat list \<Rightarrow> cmat \<times> cmat \<Rightarrow> cmat \<times> cmat" where
  "exp_terms VHS [] st = st"
| "exp_terms VHS (n # ns) st =
     (let tmp = mat_sdiv (mat_mul VHS (snd st)) (of_nat n)
      in exp_terms VHS ns (mat_add (fst st) tmp, tmp))"

definition apply_exponential ::
  "module_env \<Rightarrow> continuous \<Rightarrow> cmat \<Rightarrow> cmat \<Rightarrow> py_error + (cmat \<times> cmat)" where
  "apply_exponential env self ph VHS =
     (if \<not> numpy env then Inl (NameError ''numpy'')
      else Inr (exp_terms VHS [1..<exp_nmax self + 1] (ph, ph)))"

text \<open>Writing back the columns before \<open>n\<close>, and those from \<open>n\<close> on.\<close>

definition set_cols_to :: "nat \<Rightarrow> cmat \<Rightarrow> cmat \<Rightarrow> cmat" where
  "set_cols_to n M X = map (\<lambda>(row, x). x @ drop n row) (zip M X)"

definition set_cols_from :: "nat \<Rightarrow> cmat \<Rightarrow> cmat \<Rightarrow> cmat" where
  "set_cols_from n M X = map (\<lambda>(row, x). take n row @ x) (zip M X)"

text \<open>
  \<open>two_body_propagator\<close>, statement by statement. The first statement reads the name
  \<open>numpy\<close>; \<open>xi_draw\<close> is the vector that \<open>numpy.random.normal\<close> returns when the name
  is bound. A global name that is unbound raises \<open>NameError\<close>, an attribute that is absent
  raises \<open>AttributeError\<close>, an index past the end of the force bias raises \<open>IndexError\<close>.
  The result is the propagator (its \<open>Temp\<close> is written), the walker and the triple the
  method returns; all statements that raise come before the walker is written.
\<close>

definition two_body_propagator ::
  "module_env \<Rightarrow> continuous \<Rightarrow> ('a sd_walker_scheme) \<Rightarrow> system \<Rightarrow> bool \<Rightarrow> real list
     \<Rightarrow> py_error + (continuous \<times> ('a sd_walker_scheme) \<times> complex \<times> complex \<times> complex list)" where
  "two_body_propagator env self w sys force_bias xi_draw =
     (if \<not> numpy env then Inl (NameError ''numpy'')
      else
       (let xi = map complex_of_real xi_draw in
        case (if force_bias then
                (case propagator self of
                   None \<Rightarrow> Inl (AttributeError ''propagator'')
                 | Some p \<Rightarrow> Inr (construct_force_bias p sys (G w)))
              else Inr (replicate (nfields sys) 0)) of
          Inl e \<Rightarrow> Inl e
        | Inr xbar0 \<Rightarrow>
            if length xbar0 < nfields sys then Inl IndexError
            else
            (let xbar = fold (\<lambda>i xb. if cmod (xb ! i) > 1
                                       then xb[i := xb ! i / complex_of_real (cmod (xb ! i))]
                                       else xb)
                             [0..<nfields sys] xbar0;
                 xshifted = map (\<lambda>(a, b). a - b) (zip xi xbar)
             in case shifted env of
                  None \<Rightarrow> Inl (NameError ''shifted'')
                | Some sh \<Rightarrow>
                    (case mf_shift self of
                       None \<Rightarrow> Inl (AttributeError ''mf_shift'')
                     | Some mf \<Rightarrow>
                         (let cmf = - complex_of_real (sqrt_dt self) * vdot sh mf;
                              cfb = vdot xi xbar - 0.5 * vdot xbar xbar
                          in case propagator self of
                               None \<Rightarrow> Inl (AttributeError ''propagator'')
                             | Some p \<Rightarrow>
                                 (let VHS = construct_VHS p sys xshifted in
                                  case apply_exponential env self
                                         (map (take (sys_nup sys)) (phi w)) VHS of
                                    Inl e \<Rightarrow> Inl e
                                  | Inr up \<Rightarrow>
                                      (let ph1 = set_cols_to (sys_nup sys) (phi w) (fst up);
                                           self1 = self\<lparr>Temp := snd up\<rparr>
                                       in if sys_ndown sys > 0 then
                                            (case apply_exponential env self1
                                                    (map (drop (sys_nup sys)) ph1) VHS of
                                               Inl e \<Rightarrow> Inl e
                                             | Inr dn \<Rightarrow>
                                                 Inr (self1\<lparr>Temp := snd dn\<rparr>,
                                                      w\<lparr>phi := set_cols_from (sys_nup sys) ph1 (fst dn)\<rparr>,
                                                      cmf, cfb, xshifted))
                                          else Inr (self1, w\<lparr>phi := ph1\<rparr>, cmf, cfb, xshifted))))))))"

text \<open>
  \<open>cmath.log\<close>: the principal logarithm, a domain error at 0. \<open>cmath.exp\<close>: the
  exponential, an \<open>OverflowError\<close> when the magnitude of the result leaves the range of the
  floating-point numbers; \<open>ovf\<close> tells which magnitudes do.
\<close>

definition clog :: "complex \<Rightarrow> py_error + complex" where
  "clog z = (if z = 0 then Inl ValueError else Inr (Complex (ln (cmod z)) (Arg z)))"

definition cexp :: "(real \<Rightarrow> bool) \<Rightarrow> complex \<Rightarrow> py_error + complex" where
  "cexp ovf z = (if ovf (cmod (exp z)) then Inl OverflowError else Inr (exp z))"

text \<open>
  \<open>propagate_walker_free\<close>. \<open>linv\<close> and \<open>det\<close> stand for \<open>scipy.linalg.inv\<close> and
  \<open>scipy.linalg.det\<close>, which \<open>pauxy/walker.py\<close> imports. The walker and the propagator
  are changed in place, so the result is the exception, if any, together with both as the
  call leaves them.
\<close>

definition propagate_walker_free ::
  "module_env \<Rightarrow> (real \<Rightarrow> bool) \<Rightarrow> (cmat \<Rightarrow> py_error + cmat) \<Rightarrow> (cmat \<Rightarrow> complex)
     \<Rightarrow> continuous \<Rightarrow> ('a sdet_walker_scheme) \<Rightarrow> system \<Rightarrow> cmat \<Rightarrow> real list
     \<Rightarrow> py_error option \<times> continuous \<times> ('a sdet_walker_scheme)" where
  "propagate_walker_free env ovf linv det self w sys trial_psi xi_draw =
     (case kinetic_real env of
        None \<Rightarrow> (Some (NameError ''kinetic_real''), self, w)
      | Some kin \<Rightarrow>
          (let w1 = w\<lparr>phi := kin (phi w) sys (BH1 self)\<rparr> in
           case two_body_propagator env self w1 sys False xi_draw of
             Inl e \<Rightarrow> (Some e, self, w1)
           | Inr (self1, w2, cmf, cfb, xmxbar) \<Rightarrow>
               (let w3 = w2\<lparr>phi := kin (phi w2) sys (BH1 self1)\<rparr> in
                case inverse_overlap linv trial_psi w3 of
                  (Some e, w4) \<Rightarrow> (Some e, self1, w4)
                | (None, w4) \<Rightarrow>
                    (let w5 = w4\<lparr>ot := calc_otrial det w4\<rparr>;
                         w6 = greens_function trial_psi w5
                     in if \<not> cmath env then (Some (NameError ''cmath''), self1, w6)
                        else
                          (case cexp ovf cmf of
                             Inl e \<Rightarrow> (Some e, self1, w6)
                           | Inr z \<Rightarrow>
                               (None, self1,
                                w6\<lparr>weight := weight w6 * cmod z,
                                    phase := phase w6 * exp (\<i> * complex_of_real (Arg z))\<rparr>))))))"

text \<open>
  The hybrid phaseless update that ends \<open>propagate_walker_phaseless\<close>, from the
  recomputation of the inverse overlap on. \<open>math.isinf\<close> holds of a magnitude that has left
  the floating-point range. The last argument of \<open>push_full\<close> divides by the magnitude,
  after the weight and the overlap are written; the field configurations themselves are
  not part of the walker here.
\<close>

definition phaseless_update ::
  "module_env \<Rightarrow> (real \<Rightarrow> bool) \<Rightarrow> (cmat \<Rightarrow> py_error + cmat) \<Rightarrow> (cmat \<Rightarrow> complex)
     \<Rightarrow> continuous \<Rightarrow> ('a sdet_walker_scheme) \<Rightarrow> cmat \<Rightarrow> complex \<Rightarrow> complex
     \<Rightarrow> py_error option \<times> ('a sdet_walker_scheme)" where
  "phaseless_update env ovf linv det self w3 trial_psi cmf cfb =
     (case inverse_overlap linv trial_psi w3 of
        (Some e, w4) \<Rightarrow> (Some e, w4)
      | (None, w4) \<Rightarrow>
          (let w5 = greens_function trial_psi w4;
               ot_new = calc_otrial det w5
           in if \<not> cmath env then (Some (NameError ''cmath''), w5)
              else
              (case clog ot_new of
                 Inl e \<Rightarrow> (Some e, w5)
               | Inr log_new \<Rightarrow>
                   (case clog (ot w5) of
                      Inl e \<Rightarrow> (Some e, w5)
                    | Inr log_old \<Rightarrow>
                        (let hybrid_energy = log_new - log_old + cfb + cmf in
                         case cexp ovf hybrid_energy of
                           Inl e \<Rightarrow> (Some e, w5)
                         | Inr ex \<Rightarrow>
                             (let importance_function = mf_const_fac self * ex;
                                  magn = cmod importance_function
                              in if \<not> math env then (Some (NameError ''math''), w5)
                                 else if \<not> ovf magn then
                                   (case cexp ovf (hybrid_energy - cfb) of
                                      Inl e \<Rightarrow> (Some e, w5)
                                    | Inr ex' \<Rightarrow>
                                        (let dtheta = Arg ex';
                                             cosine_fac = max 0 (cos dtheta);
                                             w6 = w5\<lparr>weight := weight w5 * (magn * cosine_fac),
                                                     ot := ot_new\<rparr>
                                         in if magn = 0 then (Some ZeroDivisionError, w6)
                                            else (None, w6)))
                                 else (None, w5\<lparr>ot := ot_new, weight := 0\<rparr>)))))))"

text \<open>\<open>propagate_walker_phaseless\<close>.\<close>

definition propagate_walker_phaseless ::
  "module_env \<Rightarrow> (real \<Rightarrow> bool) \<Rightarrow> (cmat \<Rightarrow> py_error + cmat) \<Rightarrow> (cmat \<Rightarrow> complex)
     \<Rightarrow> continuous \<Rightarrow> ('a sdet_walker_scheme) \<Rightarrow> system \<Rightarrow> cmat \<Rightarrow> real list
     \<Rightarrow> py_error option \<times> continuous \<times> ('a sdet_walker_scheme)" where
  "propagate_walker_phaseless env ovf linv det self w sys trial_psi xi_draw =
     (case kinetic_real env of
        None \<Rightarrow> (Some (NameError ''kinetic_real''), self, w)
      | Some kin \<Rightarrow>
          (let w1 = w\<lparr>phi := kin (phi w) sys (BH1 self)\<rparr> in
           case two_body_propagator env self w1 sys True xi_draw of
             Inl e \<Rightarrow> (Some e, self, w1)
           | Inr (self1, w2, cmf, cfb, xmxbar) \<Rightarrow>
               (let w3 = w2\<lparr>phi := kin (phi w2) sys (BH1 self1)\<rparr> in
                case phaseless_update env ovf linv det self1 w3 trial_psi cmf cfb of
                  (e, w') \<Rightarrow> (e, self1, w'))))"

text \<open>
  \<open>linv\<close> behaves as \<open>scipy.linalg.inv\<close> at a matrix without inverse: it raises
  \<open>LinAlgError\<close>.
\<close>

definition raises_at :: "(cmat \<Rightarrow> py_error + cmat) \<Rightarrow> nat \<Rightarrow> cmat \<Rightarrow> bool" where
  "raises_at linv k M \<longleftrightarrow> ((\<nexists>X. is_inverse k M X) \<longrightarrow> linv M = Inl LinAlgError)"

section \<open>Concrete inputs\<close>

definition cfg_max2 :: "string \<rightharpoonup> cfg_val" where
  "cfg_max2 = [''max_weight'' \<mapsto> CNum 2]"

definition mk_plain :: "nat \<Rightarrow> py_error + walker" where
  "mk_plain i = Inr \<lparr>weight = 1, alive = 1\<rparr>"

definition rng_half :: rng where
  "rng_half = \<lparr>draws = (\<lambda>n. 1 / 2), pos = 0\<rparr>"

text \<open>Two walkers of weights 0.04 and 0.96, thresholds 0.05 and 4, target 1.\<close>

definition W_light :: "walker walkers" where
  "W_light = \<lparr> walkers = [\<lparr>weight = 1 / 25, alive = 1\<rparr>, \<lparr>weight = 24 / 25, alive = 1\<rparr>],
               nw = 2,
               pcontrol = CStr ''branching'', wmax = CNum 4, wmin = CNum (1 / 20),
               max_nwalkers = CNum 1, min_nwalkers = CNum 1, total_weight = 1 \<rparr>"

text \<open>Two walkers of weights 1 and 3 and a dead one of weight 5, target 2.\<close>

definition W_three :: "walker walkers" where
  "W_three = \<lparr> walkers = [\<lparr>weight = 1, alive = 1\<rparr>, \<lparr>weight = 3, alive = 1\<rparr>,
                          \<lparr>weight = 5, alive = 0\<rparr>],
               nw = 2,
               pcontrol = CStr ''branching'', wmax = CNum 4, wmin = CNum (1 / 20),
               max_nwalkers = CNum 2, min_nwalkers = CNum 1, total_weight = 0 \<rparr>"

text \<open>Two handler walkers of weights 1 and -3; buffers are whole walkers.\<close>

definition hw_a :: h_walker where
  "hw_a = \<lparr>weight = 1, alive = 1, G = [], total_weight_w = Some 2\<rparr>"

definition hw_b :: h_walker where
  "hw_b = \<lparr>weight = - 3, alive = 1, G = [], total_weight_w = Some 2\<rparr>"

definition H_two :: "h_walker handler" where
  "H_two = \<lparr>walkers = [hw_a, hw_b], nw = 2, nwalkers = 2, ntot_walkers = 2, stack_size = 1\<rparr>"

text \<open>An ensemble of a single walker in total, and one of two walkers of weight zero.\<close>

definition H_one :: "h_walker handler" where
  "H_one = \<lparr>walkers = [hw_b], nw = 1, nwalkers = 1, ntot_walkers = 1, stack_size = 1\<rparr>"

definition hw_z :: h_walker where
  "hw_z = \<lparr>weight = 0, alive = 1, G = [], total_weight_w = Some 2\<rparr>"

definition H_zero :: "h_walker handler" where
  "H_zero = \<lparr>walkers = [hw_z, hw_z], nw = 2, nwalkers = 2, ntot_walkers = 2, stack_size = 1\<rparr>"

definition whole_buffer :: "h_walker \<Rightarrow> h_walker" where
  "whole_buffer w = w"

definition take_buffer :: "h_walker \<Rightarrow> h_walker \<Rightarrow> h_walker" where
  "take_buffer w b = b"

text \<open>
  The communicator of a run on one process without MPI; the second of two processes, each
  holding one walker, with the array the root broadcasts for the gathered weights 1 and 3
  and the offset 1/2; and an ensemble of three walkers of which only two are counted.
\<close>

definition comm_one :: "h_walker comm" where
  "comm_one = \<lparr>rank = 0, comm_size = 1, is_FakeComm = True, Gather = (\<lambda>ws. ws), Bcast = [],
               comm_recv = (\<lambda>src tag. hw_a)\<rparr>"

definition H_second :: "h_walker handler" where
  "H_second = \<lparr>walkers = [hw_b], nw = 1, nwalkers = 1, ntot_walkers = 2, stack_size = 1\<rparr>"

definition comm_second :: "h_walker comm" where
  "comm_second = \<lparr>rank = 1, comm_size = 2, is_FakeComm = False, Gather = (\<lambda>ws. ws),
                  Bcast = [0, 2], comm_recv = (\<lambda>src tag. hw_a)\<rparr>"

definition hw_q :: h_walker where
  "hw_q = \<lparr>weight = 1 / 4, alive = 1, G = [], total_weight_w = Some 2\<rparr>"

definition hw_d :: h_walker where
  "hw_d = \<lparr>weight = 7 / 2, alive = 0, G = [], total_weight_w = Some 2\<rparr>"

definition H_dead :: "h_walker handler" where
  "H_dead = \<lparr>walkers = [hw_q, hw_q, hw_d], nw = 2, nwalkers = 3, ntot_walkers = 3, stack_size = 1\<rparr>"

text \<open>A propagator and a walker on two sites; site 0 has both overlap ratios negative.\<close>

definition P_ex :: thermal_discrete where
  "P_ex = \<lparr> BH1 = [[[1, 0], [0, 1]], [[1, 0], [0, 1]]], nstblz = 10,
            delta = [[1, - 1 / 2], [- 1 / 2, 1]], auxf = [[2, 1 / 2], [1 / 2, 2]],
            BV = [[0, 0], [0, 0]],
            BT = [[[1, 0], [0, 1]], [[1, 0], [0, 1]]],
            BT_inv = [[[1, 0], [0, 1]], [[1, 0], [0, 1]]] \<rparr>"

definition w_ex :: gwalker where
  "w_ex = \<lparr>weight = 1, alive = 1, G = [[[3, 1], [0, 0]], [[3, 0], [0, 0]]]\<rparr>"

text \<open>\<open>scipy.linalg.inv\<close> on matrices of order 1.\<close>

definition inv_1x1 :: "cmat \<Rightarrow> py_error + cmat" where
  "inv_1x1 M = (if M ! 0 ! 0 = 0 then Inl LinAlgError else Inr [[1 / (M ! 0 ! 0)]])"

text \<open>
  A trial state and a walker with two basis functions, one electron of each spin, the up
  orbital on site 0 and the down orbital on site 1.
\<close>

definition T_two :: cmat where
  "T_two = [[1, 0], [0, 1]]"

definition w_two :: sd_walker where
  "w_two = \<lparr>weight = 1, alive = 1, G = [[[1, 0], [0, 0]], [[0, 0], [0, 1]]],
            phi = [[1, 0], [0, 1]], inv_ovlp = [[[1]], [[1]]], nup = 1, ot = 1\<rparr>"

text \<open>A walker whose up orbital vanishes: its up overlap is the zero matrix of order 1.\<close>

definition w_sing :: sd_walker where
  "w_sing = w_two\<lparr>phi := [[0, 0], [0, 1]]\<rparr>"

text \<open>
  The module with the libraries and \<open>kinetic_real\<close> supplied and still no name
  \<open>shifted\<close>, a system with two fields, the propagator object as the constructor then
  leaves it, an object for \<open>self.propagator\<close>, and a walker.
\<close>

definition env_c :: module_env where
  "env_c = \<lparr>numpy = True, cmath = True, math = True,
             kinetic_real = Some (\<lambda>ph s b. ph), shifted = None\<rparr>"

definition sys_c :: system where
  "sys_c = \<lparr>nfields = 2, sys_nup = 1, sys_ndown = 1\<rparr>"

definition cobp_c :: "system \<Rightarrow> real \<Rightarrow> cmat list" where
  "cobp_c s d = [[[1, 0], [0, 1]], [[1, 0], [0, 1]]]"

definition self_c :: continuous where
  "self_c = \<lparr> BH1 = [[[1, 0], [0, 1]], [[1, 0], [0, 1]]], nstblz = 10,
              free_projection = False, exp_nmax = 4, dt = 1, sqrt_dt = 1, isqrt_dt = \<i>,
              num_vplus = 1, vbias = [0, 0], mf_const_fac = 1,
              BT_BP = [[[1, 0], [0, 1]], [[1, 0], [0, 1]]], Temp = [[0], [0]],
              ebound = sqrt 2, mean_local_energy = 0, propagate_walker = None,
              propagator = None, mf_shift = None \<rparr>"

definition p_c :: hs_propagator where
  "p_c = \<lparr>construct_force_bias = (\<lambda>s g. [0, 0]), construct_VHS = (\<lambda>s x. [[0, 0], [0, 0]])\<rparr>"

definition w_c :: sdet_walker where
  "w_c = \<lparr>weight = 1, alive = 1, G = [[[1, 0], [0, 0]], [[0, 0], [0, 1]]],
          phi = [[1, 0], [0, 1]], inv_ovlp = [[[1]], [[1]]], nup = 1, ot = 1, phase = 1\<rparr>"

definition det_1x1 :: "cmat \<Rightarrow> complex" where
  "det_1x1 M = M ! 0 ! 0"

section \<open>The weight thresholds read at construction\<close>

lemma Walkers_init_fields:
  assumes "Walkers_init inputs mk n = Inr W"
  shows "wmax W = dict_get inputs ''max_weight'' (CNum 4.0)"
    and "wmin W = dict_get inputs ''max_weight'' (CNum 0.05)"
  using assms
  by (auto simp: Walkers_init_def calculate_nwalkers_def calculate_total_weight_def
           split: sum.splits)

text \<open>
  C9. \<open>Walkers.__init__\<close> reads \<open>wmin\<close> from the key \<open>max_weight\<close> with default 0.05:
  it is 0.05 when the key is absent, it is the supplied value, and so equal to \<open>wmax\<close>,
  when the key is present, and two dictionaries that agree on \<open>max_weight\<close> give the same
  \<open>wmin\<close> whatever their other keys (\<open>min_weight\<close> among them) hold.
\<close>

theorem wmin_read_from_max_weight:
  assumes "Walkers_init inputs mk n = Inr W"
  shows "(inputs ''max_weight'' = None \<longrightarrow> wmin W = CNum 0.05 \<and> wmax W = CNum 4.0)
       \<and> (\<forall>v. inputs ''max_weight'' = Some v \<longrightarrow> wmin W = v \<and> wmin W = wmax W)
       \<and> (\<forall>inputs' W'. Walkers_init inputs' mk n = Inr W'
            \<longrightarrow> inputs' ''max_weight'' = inputs ''max_weight'' \<longrightarrow> wmin W' = wmin W)"
proof (intro conjI allI impI)
  assume "inputs ''max_weight'' = None"
  then show "wmin W = CNum 0.05" "wmax W = CNum 4.0"
    using Walkers_init_fields [OF assms] by (simp_all add: dict_get_def)
next
  fix v assume "inputs ''max_weight'' = Some v"
  then show "wmin W = v" "wmin W = wmax W"
    using Walkers_init_fields [OF assms] by (simp_all add: dict_get_def)
next
  fix inputs' W'
  assume a: "Walkers_init inputs' mk n = Inr W'"
    and b: "inputs' ''max_weight'' = inputs ''max_weight''"
  show "wmin W' = wmin W"
    using Walkers_init_fields(2) [OF assms] Walkers_init_fields(2) [OF a] b
    by (simp add: dict_get_def)
qed

theorem wmin_read_from_max_weight_witness:
  "Walkers_init cfg_max2 mk_plain 2
     = Inr \<lparr> walkers = [\<lparr>weight = 1, alive = 1\<rparr>, \<lparr>weight = 1, alive = 1\<rparr>], nw = 2,
             pcontrol = CStr ''comb'', wmax = CNum 2, wmin = CNum 2,
             max_nwalkers = CNum (11 / 5), min_nwalkers = CNum (9 / 5),
             total_weight = 2 \<rparr>
   \<and> wmin (projr (Walkers_init cfg_max2 mk_plain 2)) = wmax (projr (Walkers_init cfg_max2 mk_plain 2))"
proof -
  have e: "Walkers_init cfg_max2 mk_plain 2
     = Inr \<lparr> walkers = [\<lparr>weight = 1, alive = 1\<rparr>, \<lparr>weight = 1, alive = 1\<rparr>], nw = 2,
             pcontrol = CStr ''comb'', wmax = CNum 2, wmin = CNum 2,
             max_nwalkers = CNum (11 / 5), min_nwalkers = CNum (9 / 5),
             total_weight = 2 \<rparr>"
    by (simp add: Walkers_init_def cfg_max2_def mk_plain_def dict_get_def
          calculate_nwalkers_def calculate_total_weight_def numeral_2_eq_2)
  have k: "cfg_max2 ''max_weight'' = Some (CNum 2)" by (simp add: cfg_max2_def)
  from wmin_read_from_max_weight [OF e] k show ?thesis using e by simp
qed

section \<open>Branching: rescaling and the kill rule\<close>

lemma alive_total_rescaled:
  "sum_list (map weight (filter (\<lambda>w. alive w \<noteq> 0) (map (\<lambda>w. w\<lparr>weight := weight w / c\<rparr>) ws)))
     = sum_list (map weight (filter (\<lambda>w. alive w \<noteq> 0) ws)) / c"
  by (induction ws) (simp_all add: add_divide_distrib)

text \<open>
  C7. A branching step starts with \<open>rescale_weights\<close>: when the total weight of the alive
  walkers and the target \<open>max_nwalkers\<close> are not zero, every walker's weight is divided by
  the one factor \<open>total / max_nwalkers\<close>, the total weight of the rescaled ensemble is
  \<open>max_nwalkers\<close>, and the rest of the step runs on the rescaled ensemble.
\<close>

theorem branching_rescales_to_target:
  assumes "max_nwalkers W0 = CNum m" and "m \<noteq> 0"
    and "total_weight (calculate_total_weight W0) \<noteq> 0"
  shows "\<exists>W. rescale_weights W0 = Inr W
           \<and> walkers W = map (\<lambda>w. w\<lparr>weight := weight w / (total_weight (calculate_total_weight W0) / m)\<rparr>)
                            (walkers W0)
           \<and> total_weight (calculate_total_weight W) = m
           \<and> branching W0 g = branching_tail W g"
proof -
  define t where "t = total_weight (calculate_total_weight W0)"
  define c where "c = t / m"
  define W where "W = (calculate_total_weight W0)\<lparr>walkers := map (\<lambda>w. w\<lparr>weight := weight w / c\<rparr>) (walkers W0)\<rparr>"
  have t0: "t \<noteq> 0" using assms(3) by (simp add: t_def)
  have ne: "walkers W0 \<noteq> []"
    using assms(3) by (auto simp: calculate_total_weight_def)
  have c0: "c \<noteq> 0" using assms(2) t0 by (simp add: c_def)
  have mx: "max_nwalkers (calculate_total_weight W0) = CNum m"
    using assms(1) by (simp add: calculate_total_weight_def)
  have wk: "walkers (calculate_total_weight W0) = walkers W0"
    by (simp add: calculate_total_weight_def)
  have r: "rescale_weights W0 = Inr W"
    unfolding rescale_weights_def Let_def mx wk
    using assms(2) ne c0 by (simp add: as_num_def W_def c_def t_def)
  have w: "walkers W = map (\<lambda>w. w\<lparr>weight := weight w / c\<rparr>) (walkers W0)"
    by (simp add: W_def)
  have "total_weight (calculate_total_weight W)
          = sum_list (map weight (filter (\<lambda>w. alive w \<noteq> 0) (walkers W)))"
    by (simp add: calculate_total_weight_def)
  also have "\<dots> = sum_list (map weight (filter (\<lambda>w. alive w \<noteq> 0) (walkers W0))) / c"
    unfolding w by (rule alive_total_rescaled)
  also have "\<dots> = t / c" by (simp add: t_def calculate_total_weight_def)
  also have "\<dots> = m" using assms(2) t0 by (simp add: c_def)
  finally have tt: "total_weight (calculate_total_weight W) = m" .
  have b: "branching W0 g = branching_tail W g"
    by (simp add: branching_def r)
  from r w tt b show ?thesis unfolding c_def t_def by blast
qed

theorem branching_rescales_to_target_witness:
  "max_nwalkers W_three = CNum 2 \<and> (2::real) \<noteq> 0
   \<and> total_weight (calculate_total_weight W_three) = 4
   \<and> (\<exists>W. rescale_weights W_three = Inr W
           \<and> walkers W = [\<lparr>weight = 1 / 2, alive = 1\<rparr>, \<lparr>weight = 3 / 2, alive = 1\<rparr>,
                          \<lparr>weight = 5 / 2, alive = 0\<rparr>]
           \<and> total_weight (calculate_total_weight W) = 2
           \<and> branching W_three rng_half = branching_tail W rng_half)"
proof -
  have m: "max_nwalkers W_three = CNum 2" by (simp add: W_three_def)
  have t: "total_weight (calculate_total_weight W_three) = 4"
    by (simp add: W_three_def calculate_total_weight_def)
  have n: "total_weight (calculate_total_weight W_three) \<noteq> 0" using t by simp
  have ws: "walkers W_three = [\<lparr>weight = 1, alive = 1\<rparr>, \<lparr>weight = 3, alive = 1\<rparr>,
                          \<lparr>weight = 5, alive = 0\<rparr>]"
    by (simp add: W_three_def)
  from branching_rescales_to_target [OF m _ n, of rng_half]
  show ?thesis using m t ws by simp
qed

lemma branching_scan_spec:
  assumes "as_num wmx = Inr mx" and "as_num wmn = Inr mn"
  shows "\<exists>ws' ic nc ik g'.
           branching_scan wmx wmn i ws g = Inr (ws', ic, nc, ik, g')
         \<and> length ws' = length ws
         \<and> pos g' = pos g + length ws \<and> draws g' = draws g
         \<and> set ik \<subseteq> {i ..< i + length ws}
         \<and> (\<forall>k<length ws. \<not> weight (ws ! k) > mx \<longrightarrow>
               (i + k \<in> set ik \<longleftrightarrow> weight (ws ! k) < mn \<and> weight (ws ! k) < draws g (pos g + k))
             \<and> (i + k \<in> set ik \<longrightarrow> ws' ! k = (ws ! k)\<lparr>alive := 0\<rparr>)
             \<and> (i + k \<notin> set ik \<longrightarrow> ws' ! k = ws ! k))"
proof (induction ws arbitrary: i g)
  case Nil
  show ?case by simp
next
  case (Cons w ws)
  let ?g1 = "g\<lparr>pos := pos g + 1\<rparr>"
  from Cons.IH [of "Suc i" ?g1] obtain ws' ic nc ik g' where
    s: "branching_scan wmx wmn (Suc i) ws ?g1 = Inr (ws', ic, nc, ik, g')"
    and l: "length ws' = length ws"
    and p: "pos g' = pos ?g1 + length ws" "draws g' = draws ?g1"
    and sub: "set ik \<subseteq> {Suc i ..< Suc i + length ws}"
    and all: "\<forall>k<length ws. \<not> weight (ws ! k) > mx \<longrightarrow>
               (Suc i + k \<in> set ik \<longleftrightarrow> weight (ws ! k) < mn \<and> weight (ws ! k) < draws ?g1 (pos ?g1 + k))
             \<and> (Suc i + k \<in> set ik \<longrightarrow> ws' ! k = (ws ! k)\<lparr>alive := 0\<rparr>)
             \<and> (Suc i + k \<notin> set ik \<longrightarrow> ws' ! k = ws ! k)"
    by blast
  have ni: "i \<notin> set ik" using sub by auto
  let ?kill = "\<not> weight w > mx \<and> weight w < mn \<and> weight w < draws g (pos g)"
  let ?w' = "if weight w > mx then w\<lparr>weight := 1\<rparr> else if ?kill then w\<lparr>alive := 0\<rparr> else w"
  let ?ik = "if ?kill then i # ik else ik"
  have "\<exists>ic' nc'. branching_scan wmx wmn i (w # ws) g = Inr (?w' # ws', ic', nc', ?ik, g')"
    using assms s by (cases "mx < weight w") (simp_all add: random_def Let_def)
  then obtain ic' nc' where
    e: "branching_scan wmx wmn i (w # ws) g = Inr (?w' # ws', ic', nc', ?ik, g')"
    by blast
  have tail: "\<forall>k<length (w # ws). \<not> weight ((w # ws) ! k) > mx \<longrightarrow>
               (i + k \<in> set ?ik \<longleftrightarrow> weight ((w # ws) ! k) < mn
                   \<and> weight ((w # ws) ! k) < draws g (pos g + k))
             \<and> (i + k \<in> set ?ik \<longrightarrow> (?w' # ws') ! k = ((w # ws) ! k)\<lparr>alive := 0\<rparr>)
             \<and> (i + k \<notin> set ?ik \<longrightarrow> (?w' # ws') ! k = (w # ws) ! k)"
  proof (intro allI impI)
    fix k assume k: "k < length (w # ws)" and le: "\<not> weight ((w # ws) ! k) > mx"
    show "(i + k \<in> set ?ik \<longleftrightarrow> weight ((w # ws) ! k) < mn
                   \<and> weight ((w # ws) ! k) < draws g (pos g + k))
             \<and> (i + k \<in> set ?ik \<longrightarrow> (?w' # ws') ! k = ((w # ws) ! k)\<lparr>alive := 0\<rparr>)
             \<and> (i + k \<notin> set ?ik \<longrightarrow> (?w' # ws') ! k = (w # ws) ! k)"
    proof (cases k)
      case 0
      then show ?thesis using le ni by auto
    next
      case (Suc j)
      then have j: "j < length ws" and lej: "\<not> weight (ws ! j) > mx" using k le by auto
      from all j lej have
        "(Suc i + j \<in> set ik \<longleftrightarrow> weight (ws ! j) < mn \<and> weight (ws ! j) < draws ?g1 (pos ?g1 + j))
             \<and> (Suc i + j \<in> set ik \<longrightarrow> ws' ! j = (ws ! j)\<lparr>alive := 0\<rparr>)
             \<and> (Suc i + j \<notin> set ik \<longrightarrow> ws' ! j = ws ! j)"
        by blast
      then show ?thesis using Suc by auto
    qed
  qed
  have sub': "set ?ik \<subseteq> {i ..< i + length (w # ws)}" using sub by auto
  have "length (?w' # ws') = length (w # ws)" using l by simp
  moreover have "pos g' = pos g + length (w # ws)" "draws g' = draws g" using p by simp_all
  ultimately show ?case using e tail sub' by blast
qed

text \<open>
  C6, as the code has it. After the rescaling, the scan of a branching step makes one draw
  per walker, \<open>r\<close> for walker \<open>k\<close> being draw number \<open>k\<close>. A walker whose weight is not above
  \<open>wmax\<close> is put on the kill list exactly when its weight is below \<open>wmin\<close> and below
  \<open>r\<close>: the draw is compared with the weight itself, not with \<open>weight / wmin\<close>. A walker on
  the kill list has \<open>alive\<close> set to 0, any other walker not above \<open>wmax\<close> is left as it is.
\<close>

theorem branching_kill_rule:
  assumes "rescale_weights W0 = Inr W" and "wmax W = CNum mx" and "wmin W = CNum mn"
  shows "\<exists>ws' ic nc ik g'.
           branching_scan (wmax W) (wmin W) 0 (walkers W) g = Inr (ws', ic, nc, ik, g')
         \<and> pos g' = pos g + length (walkers W)
         \<and> (\<forall>k<length (walkers W). \<not> weight (walkers W ! k) > mx \<longrightarrow>
               (k \<in> set ik \<longleftrightarrow> weight (walkers W ! k) < mn
                                \<and> weight (walkers W ! k) < draws g (pos g + k))
             \<and> (k \<in> set ik \<longrightarrow> ws' ! k = (walkers W ! k)\<lparr>alive := 0\<rparr>)
             \<and> (k \<notin> set ik \<longrightarrow> ws' ! k = walkers W ! k))"
proof -
  have a: "as_num (wmax W) = Inr mx" "as_num (wmin W) = Inr mn"
    using assms(2,3) by (simp_all add: as_num_def)
  from branching_scan_spec [OF a, of 0 "walkers W" g] show ?thesis
    by (simp only: add_0) blast
qed

theorem branching_kill_rule_witness:
  "rescale_weights W_light = Inr W_light \<and> wmax W_light = CNum 4 \<and> wmin W_light = CNum (1 / 20)
   \<and> (\<exists>ws' ic nc ik g'.
         branching_scan (wmax W_light) (wmin W_light) 0 (walkers W_light) rng_half
           = Inr (ws', ic, nc, ik, g')
       \<and> pos g' = 2 \<and> 0 \<in> set ik \<and> 1 \<notin> set ik
       \<and> ws' ! 0 = \<lparr>weight = 1 / 25, alive = 0\<rparr> \<and> ws' ! 1 = \<lparr>weight = 24 / 25, alive = 1\<rparr>)"
proof -
  have r: "rescale_weights W_light = Inr W_light"
    by (simp add: rescale_weights_def W_light_def calculate_total_weight_def as_num_def)
  have mx: "wmax W_light = CNum 4" and mn: "wmin W_light = CNum (1 / 20)"
    by (simp_all add: W_light_def)
  have ws: "walkers W_light = [\<lparr>weight = 1 / 25, alive = 1\<rparr>, \<lparr>weight = 24 / 25, alive = 1\<rparr>]"
    by (simp add: W_light_def)
  from branching_kill_rule [OF r mx mn, of rng_half] obtain ws' ic nc ik g' where
    s: "branching_scan (wmax W_light) (wmin W_light) 0 (walkers W_light) rng_half
          = Inr (ws', ic, nc, ik, g')"
    and p: "pos g' = pos rng_half + length (walkers W_light)"
    and a: "\<forall>k<length (walkers W_light). \<not> weight (walkers W_light ! k) > 4 \<longrightarrow>
               (k \<in> set ik \<longleftrightarrow> weight (walkers W_light ! k) < 1 / 20
                                \<and> weight (walkers W_light ! k) < draws rng_half (pos rng_half + k))
             \<and> (k \<in> set ik \<longrightarrow> ws' ! k = (walkers W_light ! k)\<lparr>alive := 0\<rparr>)
             \<and> (k \<notin> set ik \<longrightarrow> ws' ! k = walkers W_light ! k)"
    by blast
  from a [rule_format, of 0] have k0: "0 \<in> set ik" "ws' ! 0 = \<lparr>weight = 1 / 25, alive = 0\<rparr>"
    by (simp_all add: ws rng_half_def)
  from a [rule_format, of 1] have k1: "1 \<notin> set ik" "ws' ! 1 = \<lparr>weight = 24 / 25, alive = 1\<rparr>"
    by (simp_all add: ws rng_half_def)
  have "pos g' = 2" using p by (simp add: ws rng_half_def)
  with r mx mn s k0 k1 show ?thesis by blast
qed

text \<open>
  The claim's rule, killed exactly when \<open>r > w / wmin\<close>, fails: with thresholds 0.05 and
  4, weight 0.04 and draw 0.5 the quotient is 0.8, above the draw, and the walker is killed
  all the same and sorted behind the surviving one.
\<close>

theorem branching_kill_quotient_counterexample:
  "branching W_light rng_half
     = Inr (W_light\<lparr>walkers := [\<lparr>weight = 24 / 25, alive = 1\<rparr>, \<lparr>weight = 1 / 25, alive = 0\<rparr>],
                     total_weight := 24 / 25, nw := 1\<rparr>,
            rng_half\<lparr>pos := 2\<rparr>)
   \<and> branching_scan (CNum 4) (CNum (1 / 20)) 0
        [\<lparr>weight = 1 / 25, alive = 1\<rparr>, \<lparr>weight = 24 / 25, alive = 1\<rparr>] rng_half
     = Inr ([\<lparr>weight = 1 / 25, alive = 0\<rparr>, \<lparr>weight = 24 / 25, alive = 1\<rparr>], [], [], [0],
            rng_half\<lparr>pos := 2\<rparr>)
   \<and> \<not> (draws rng_half 0 > (1 / 25) / (1 / 20))"
proof -
  have r: "rescale_weights W_light = Inr W_light"
    by (simp add: rescale_weights_def W_light_def calculate_total_weight_def as_num_def)
  have s: "branching_scan (CNum 4) (CNum (1 / 20)) 0
        [\<lparr>weight = 1 / 25, alive = 1\<rparr>, \<lparr>weight = 24 / 25, alive = 1\<rparr>] rng_half
     = Inr ([\<lparr>weight = 1 / 25, alive = 0\<rparr>, \<lparr>weight = 24 / 25, alive = 1\<rparr>], [], [], [0],
            rng_half\<lparr>pos := 2\<rparr>)"
    by (simp add: random_def as_num_def rng_half_def)
  have b: "branching W_light rng_half
     = Inr (W_light\<lparr>walkers := [\<lparr>weight = 24 / 25, alive = 1\<rparr>, \<lparr>weight = 1 / 25, alive = 0\<rparr>],
                     total_weight := 24 / 25, nw := 1\<rparr>,
            rng_half\<lparr>pos := 2\<rparr>)"
  proof -
    have mx: "wmax W_light = CNum 4" and mn: "wmin W_light = CNum (1 / 20)"
      and ws: "walkers W_light = [\<lparr>weight = 1 / 25, alive = 1\<rparr>, \<lparr>weight = 24 / 25, alive = 1\<rparr>]"
      by (simp_all add: W_light_def)
    have "branching W_light rng_half = branching_tail W_light rng_half"
      by (simp add: branching_def r)
    also have "\<dots> = Inr (W_light\<lparr>walkers := [\<lparr>weight = 24 / 25, alive = 1\<rparr>, \<lparr>weight = 1 / 25, alive = 0\<rparr>],
                     total_weight := 24 / 25, nw := 1\<rparr>,
            rng_half\<lparr>pos := 2\<rparr>)"
      unfolding branching_tail_def mx mn ws s
      by (simp add: calculate_total_weight_def calculate_nwalkers_def)
    finally show ?thesis .
  qed
  have "\<not> (draws rng_half 0 > (1 / 25) / (1 / 20))" by (simp add: rng_half_def)
  with b s show ?thesis by blast
qed

section \<open>Comb: the two assignments and the handler step\<close>

lemma first_exceeding_unique:
  "first_exceeding cs c j \<Longrightarrow> first_exceeding cs c j' \<Longrightarrow> j = j'"
  unfolding first_exceeding_def by (metis linorder_neqE_nat)

lemma length_cumsum_from [simp]: "length (cumsum_from a xs) = length xs"
  by (induction xs arbitrary: a) simp_all

lemma last_cumsum_from: "xs \<noteq> [] \<Longrightarrow> last (cumsum_from a xs) = a + sum_list xs"
proof (induction xs arbitrary: a)
  case Nil then show ?case by simp
next
  case (Cons x xs)
  show ?case
  proof (cases xs)
    case Nil then show ?thesis by simp
  next
    case (Cons y ys)
    then have "cumsum_from (a + x) xs \<noteq> []" by simp
    then show ?thesis using Cons.IH [of "a + x"] Cons by (simp add: add.assoc)
  qed
qed

lemma cumsum_last_total:
  assumes "xs \<noteq> []"
  shows "cumsum xs ! (length xs - 1) = sum_list xs"
proof -
  have "cumsum xs \<noteq> []" using assms by (cases xs) (simp_all add: cumsum_def)
  then have "last (cumsum xs) = cumsum xs ! (length (cumsum xs) - 1)" by (rule last_conv_nth)
  then show ?thesis using last_cumsum_from [OF assms, of 0] by (simp add: cumsum_def)
qed

lemma length_comb_teeth [simp]: "length (comb_teeth r tot n) = n"
  by (simp add: comb_teeth_def)

lemma nth_comb_teeth: "i < n \<Longrightarrow> comb_teeth r tot n ! i = (real i + r) * (tot / real n)"
  by (simp add: comb_teeth_def)

lemma comb_teeth_mono:
  assumes "0 < tot" and "i \<le> j" and "j < n"
  shows "comb_teeth r tot n ! i \<le> comb_teeth r tot n ! j"
proof -
  have a: "0 \<le> tot / real n" using assms by simp
  have b: "real i + r \<le> real j + r" using assms by simp
  have "(real i + r) * (tot / real n) \<le> (real j + r) * (tot / real n)"
    using b a by (rule mult_right_mono)
  moreover have "i < n" using assms by simp
  ultimately show ?thesis using assms(3) by (simp only: nth_comb_teeth)
qed

lemma comb_teeth_below_total:
  assumes "0 < tot" and "r < 1" and "i < n"
  shows "comb_teeth r tot n ! i < tot"
proof -
  have n: "0 < real n" using assms by simp
  have "real i + 1 \<le> real n" using assms(3) by linarith
  then have "real i + r < real n" using assms(2) by linarith
  then have "(real i + r) * (tot / real n) < real n * (tot / real n)"
    using assms(1) n by (intro mult_strict_right_mono) simp_all
  also have "\<dots> = tot" using n by simp
  finally show ?thesis using assms by (simp add: nth_comb_teeth)
qed

lemma comb_count_spec:
  "\<lbrakk> \<forall>i j. i \<le> j \<and> j < length teeth \<longrightarrow> teeth ! i \<le> teeth ! j;
     \<forall>k<length teeth. \<exists>j<length cprobs. teeth ! k < cprobs ! j;
     ic < length teeth \<longrightarrow> (\<forall>j<iw. cprobs ! j \<le> teeth ! ic);
     length p = length cprobs \<rbrakk>
   \<Longrightarrow> \<exists>p'. comb_count teeth cprobs ic iw p = Inr p' \<and> length p' = length p
          \<and> (\<forall>j<length cprobs.
                p' ! j = p ! j + length (filter (\<lambda>k. first_exceeding cprobs (teeth ! k) j) [ic..<length teeth]))"
proof (induction teeth cprobs ic iw p rule: comb_count.induct)
  case (1 teeth cprobs ic iw p)
  show ?case
  proof (cases "ic < length teeth")
    case False
    then show ?thesis by (simp add: comb_count.simps [of teeth cprobs ic iw p])
  next
    case ic: True
    have below: "\<forall>j<iw. cprobs ! j \<le> teeth ! ic" using "1.prems"(3) ic by blast
    have iw: "iw < length cprobs"
    proof (rule ccontr)
      assume "\<not> iw < length cprobs"
      moreover obtain j where "j < length cprobs" "teeth ! ic < cprobs ! j"
        using "1.prems"(2) ic by blast
      ultimately show False using below by (metis not_less order.strict_trans2 linorder_not_less)
    qed
    have upt: "[ic..<length teeth] = ic # [ic + 1..<length teeth]"
      using ic by (simp add: upt_conv_Cons)
    show ?thesis
    proof (cases "teeth ! ic < cprobs ! iw")
      case lt: True
      have fe: "first_exceeding cprobs (teeth ! ic) iw"
        using lt iw below by (auto simp: first_exceeding_def)
      have inv': "ic + 1 < length teeth \<longrightarrow> (\<forall>j<iw. cprobs ! j \<le> teeth ! (ic + 1))"
      proof (intro impI allI)
        fix j assume a: "ic + 1 < length teeth" "j < iw"
        have "teeth ! ic \<le> teeth ! (ic + 1)" using "1.prems"(1) a(1) by simp
        then show "cprobs ! j \<le> teeth ! (ic + 1)" using below a(2) by force
      qed
      have len': "length (p[iw := p ! iw + 1]) = length cprobs" using "1.prems"(4) by simp
      from "1.IH"(1) [OF ic iw lt "1.prems"(1) "1.prems"(2) inv' len']
      obtain p' where r: "comb_count teeth cprobs (ic + 1) iw (p[iw := p ! iw + 1]) = Inr p'"
        and l: "length p' = length (p[iw := p ! iw + 1])"
        and v: "\<forall>j<length cprobs. p' ! j = (p[iw := p ! iw + 1]) ! j
                  + length (filter (\<lambda>k. first_exceeding cprobs (teeth ! k) j) [ic + 1..<length teeth])"
        by blast
      have e: "comb_count teeth cprobs ic iw p = Inr p'"
        using ic iw lt r by (simp add: comb_count.simps [of teeth cprobs ic iw p])
      have "\<forall>j<length cprobs. p' ! j = p ! j
              + length (filter (\<lambda>k. first_exceeding cprobs (teeth ! k) j) [ic..<length teeth])"
      proof (intro allI impI)
        fix j assume j: "j < length cprobs"
        show "p' ! j = p ! j
              + length (filter (\<lambda>k. first_exceeding cprobs (teeth ! k) j) [ic..<length teeth])"
        proof (cases "j = iw")
          case True
          then show ?thesis using v j fe "1.prems"(4) by (simp add: upt)
        next
          case False
          then have "\<not> first_exceeding cprobs (teeth ! ic) j"
            using fe first_exceeding_unique by blast
          then show ?thesis using v j False by (simp add: upt)
        qed
      qed
      then show ?thesis using e l by simp
    next
      case ge: False
      have inv': "ic < length teeth \<longrightarrow> (\<forall>j<iw + 1. cprobs ! j \<le> teeth ! ic)"
        using below ge by (auto simp: less_Suc_eq)
      from "1.IH"(2) [OF ic iw ge "1.prems"(1) "1.prems"(2) inv' "1.prems"(4)]
      obtain p' where r: "comb_count teeth cprobs ic (iw + 1) p = Inr p'"
        and l: "length p' = length p"
        and v: "\<forall>j<length cprobs. p' ! j = p ! j
                  + length (filter (\<lambda>k. first_exceeding cprobs (teeth ! k) j) [ic..<length teeth])"
        by blast
      have e: "comb_count teeth cprobs ic iw p = Inr p'"
        using ic iw ge r by (simp add: comb_count.simps [of teeth cprobs ic iw p])
      then show ?thesis using l v by simp
    qed
  qed
qed

lemma scan_bucket_first:
  "first_exceeding cs c j \<Longrightarrow> scan_bucket c cs i0 = Some (i0 + j)"
proof (induction cs arbitrary: j i0)
  case Nil
  then show ?case by (simp add: first_exceeding_def)
next
  case (Cons w ws)
  show ?case
  proof (cases "c < w")
    case True
    have "j = 0"
    proof (rule ccontr)
      assume "j \<noteq> 0"
      then have "\<not> c < (w # ws) ! 0" using Cons.prems by (auto simp: first_exceeding_def)
      then show False using True by simp
    qed
    then show ?thesis using True by simp
  next
    case False
    then obtain j' where j: "j = Suc j'"
      using Cons.prems by (cases j) (auto simp: first_exceeding_def)
    have "first_exceeding ws c j'"
      using Cons.prems unfolding first_exceeding_def j by auto
    from Cons.IH [OF this, of "Suc i0"] show ?thesis using False j by simp
  qed
qed

lemma assign_scan_spec:
  "\<lbrakk> \<forall>k<length ts. \<exists>j. first_exceeding cprobs (ts ! k) j; ic + length ts \<le> length p \<rbrakk>
   \<Longrightarrow> \<exists>p'. assign_scan ts cprobs ic p = Inr p' \<and> length p' = length p
          \<and> (\<forall>k<length ts. first_exceeding cprobs (ts ! k) (p' ! (ic + k)))
          \<and> (\<forall>m<ic. p' ! m = p ! m)"
proof (induction ts arbitrary: ic p)
  case Nil
  then show ?case by simp
next
  case (Cons c cs)
  from Cons.prems(1) obtain j where j: "first_exceeding cprobs c j" by fastforce
  have sb: "scan_bucket c cprobs 0 = Some j" using scan_bucket_first [OF j, of 0] by simp
  have ic: "ic < length p" using Cons.prems(2) by simp
  have ex: "\<forall>k<length cs. \<exists>j. first_exceeding cprobs (cs ! k) j"
    using Cons.prems(1) by fastforce
  have le: "Suc ic + length cs \<le> length (p[ic := j])" using Cons.prems(2) by simp
  from Cons.IH [OF ex le] obtain p' where
    r: "assign_scan cs cprobs (Suc ic) (p[ic := j]) = Inr p'"
    and l: "length p' = length (p[ic := j])"
    and f: "\<forall>k<length cs. first_exceeding cprobs (cs ! k) (p' ! (Suc ic + k))"
    and u: "\<forall>m<Suc ic. p' ! m = (p[ic := j]) ! m"
    by blast
  have e: "assign_scan (c # cs) cprobs ic p = Inr p'" using sb ic r by simp
  have at: "p' ! ic = j" using u ic by simp
  have f': "\<forall>k<length (c # cs). first_exceeding cprobs ((c # cs) ! k) (p' ! (ic + k))"
  proof (intro allI impI)
    fix k assume "k < length (c # cs)"
    then show "first_exceeding cprobs ((c # cs) ! k) (p' ! (ic + k))"
      using f at j by (cases k) auto
  qed
  have u': "\<forall>m<ic. p' ! m = p ! m" using u by simp
  from e l f' u' show ?case by simp
qed

lemma teeth_have_parent:
  assumes "0 < sum_list gw" and "r < 1" and "k < n"
  shows "\<exists>j<length (cumsum gw). comb_teeth r (sum_list gw) n ! k < cumsum gw ! j"
proof -
  have ne: "gw \<noteq> []" using assms(1) by auto
  have "comb_teeth r (sum_list gw) n ! k < cumsum gw ! (length gw - 1)"
    using comb_teeth_below_total [OF assms] cumsum_last_total [OF ne] by simp
  moreover have "length gw - 1 < length (cumsum gw)" using ne by (simp add: cumsum_def)
  ultimately show ?thesis by blast
qed

lemma exceeded_has_first:
  "j < length cs \<Longrightarrow> c < cs ! j \<Longrightarrow> \<exists>j0. first_exceeding cs c j0"
proof (induction j rule: less_induct)
  case (less j)
  show ?case
  proof (cases "\<forall>j'<j. \<not> c < cs ! j'")
    case True
    then have "first_exceeding cs c j" using less.prems by (simp add: first_exceeding_def)
    then show ?thesis ..
  next
    case False
    then obtain j' where "j' < j" "c < cs ! j'" by blast
    moreover have "j' < length cs" using \<open>j' < j\<close> less.prems(1) by simp
    ultimately show ?thesis using less.IH by blast
  qed
qed

lemma comb_counts_spec:
  assumes "0 < sum_list gw" and "r < 1"
  shows "\<exists>p. comb_counts gw n csize r = Inr p \<and> length p = length gw
         \<and> (\<forall>iw<length gw.
               p ! iw = length (filter (\<lambda>ic. first_exceeding (cumsum gw)
                                   (comb_teeth r (sum_list gw) (n * csize) ! ic) iw)
                                 [0..<n * csize]))"
proof -
  let ?teeth = "comb_teeth r (sum_list gw) (n * csize)"
  have s: "\<forall>i j. i \<le> j \<and> j < length ?teeth \<longrightarrow> ?teeth ! i \<le> ?teeth ! j"
    using comb_teeth_mono [OF assms(1)] by simp
  have x: "\<forall>k<length ?teeth. \<exists>j<length (cumsum gw). ?teeth ! k < cumsum gw ! j"
    using teeth_have_parent [OF assms] by simp
  have i: "0 < length ?teeth \<longrightarrow> (\<forall>j<0. cumsum gw ! j \<le> ?teeth ! 0)" by simp
  have l: "length (replicate (length gw) (0::nat)) = length (cumsum gw)"
    by (simp add: cumsum_def)
  from comb_count_spec [OF s x i l] obtain p where
    e: "comb_count ?teeth (cumsum gw) 0 0 (replicate (length gw) 0) = Inr p"
    and lp: "length p = length (replicate (length gw) (0::nat))"
    and v: "\<forall>j<length (cumsum gw). p ! j = replicate (length gw) 0 ! j
               + length (filter (\<lambda>k. first_exceeding (cumsum gw) (?teeth ! k) j) [0..<length ?teeth])"
    by blast
  have "comb_counts gw n csize r = Inr p" using e by (simp add: comb_counts_def Let_def)
  moreover have "length p = length gw" using lp by simp
  moreover have "\<forall>iw<length gw.
               p ! iw = length (filter (\<lambda>ic. first_exceeding (cumsum gw) (?teeth ! ic) iw)
                                 [0..<n * csize])"
    using v by (simp add: cumsum_def)
  ultimately show ?thesis by blast
qed

lemma comb_parents_spec:
  assumes "0 < sum_list gw" and "r < 1" and "n * nprocs \<le> length gw"
  shows "\<exists>q. comb_parents gw n nprocs r = Inr q \<and> length q = length gw
         \<and> (\<forall>ic<n * nprocs. first_exceeding (cumsum gw)
                                 (comb_teeth r (sum_list gw) (n * nprocs) ! ic) (q ! ic))"
proof -
  let ?teeth = "comb_teeth r (sum_list gw) (n * nprocs)"
  have x: "\<forall>k<length ?teeth. \<exists>j. first_exceeding (cumsum gw) (?teeth ! k) j"
  proof (intro allI impI)
    fix k assume "k < length ?teeth"
    then have "k < n * nprocs" by simp
    from teeth_have_parent [OF assms(1,2) this] obtain j where
      "j < length (cumsum gw)" "?teeth ! k < cumsum gw ! j" by blast
    then show "\<exists>j. first_exceeding (cumsum gw) (?teeth ! k) j" by (rule exceeded_has_first)
  qed
  have l: "0 + length ?teeth \<le> length [0..<length gw]" using assms(3) by simp
  from assign_scan_spec [OF x l] obtain q where
    "assign_scan ?teeth (cumsum gw) 0 [0..<length gw] = Inr q"
    "length q = length [0..<length gw]"
    "\<forall>k<length ?teeth. first_exceeding (cumsum gw) (?teeth ! k) (q ! (0 + k))"
    by blast
  then show ?thesis by (simp add: comb_parents_def Let_def)
qed

text \<open>
  C3. For every gathered weight vector with positive total and every offset \<open>r\<close> in
  \<open>[0,1)\<close>, with the teeth fitting the parent array, both assignments return, and the
  number of teeth the incremental count of the handler gives to walker \<open>iw\<close> is the number
  of teeth whose parent is \<open>iw\<close> in the bucket scan of \<open>pauxy/walker.py\<close>.
\<close>

theorem comb_implementations_agree:
  assumes "0 < sum_list gw" and "0 \<le> r" and "r < 1" and "n * nprocs \<le> length gw"
  shows "\<exists>p q. comb_counts gw n nprocs r = Inr p \<and> comb_parents gw n nprocs r = Inr q
           \<and> length p = length gw \<and> length q = length gw
           \<and> (\<forall>iw<length gw. p ! iw = length (filter (\<lambda>ic. q ! ic = iw) [0..<n * nprocs]))"
proof -
  let ?teeth = "comb_teeth r (sum_list gw) (n * nprocs)"
  from comb_counts_spec [OF assms(1,3), of n nprocs] obtain p where
    p: "comb_counts gw n nprocs r = Inr p" "length p = length gw"
    and pv: "\<forall>iw<length gw.
               p ! iw = length (filter (\<lambda>ic. first_exceeding (cumsum gw) (?teeth ! ic) iw)
                                 [0..<n * nprocs])"
    by blast
  from comb_parents_spec [OF assms(1,3,4)] obtain q where
    q: "comb_parents gw n nprocs r = Inr q" "length q = length gw"
    and qv: "\<forall>ic<n * nprocs. first_exceeding (cumsum gw) (?teeth ! ic) (q ! ic)"
    by blast
  have "\<forall>iw<length gw. p ! iw = length (filter (\<lambda>ic. q ! ic = iw) [0..<n * nprocs])"
  proof (intro allI impI)
    fix iw assume "iw < length gw"
    have "filter (\<lambda>ic. first_exceeding (cumsum gw) (?teeth ! ic) iw) [0..<n * nprocs]
            = filter (\<lambda>ic. q ! ic = iw) [0..<n * nprocs]"
    proof (rule filter_cong [OF refl])
      fix ic assume "ic \<in> set [0..<n * nprocs]"
      then have "first_exceeding (cumsum gw) (?teeth ! ic) (q ! ic)" using qv by simp
      then show "first_exceeding (cumsum gw) (?teeth ! ic) iw \<longleftrightarrow> q ! ic = iw"
        using first_exceeding_unique by blast
    qed
    then show "p ! iw = length (filter (\<lambda>ic. q ! ic = iw) [0..<n * nprocs])"
      using pv \<open>iw < length gw\<close> by simp
  qed
  with p q show ?thesis by blast
qed

theorem comb_implementations_agree_witness:
  "(0::real) < sum_list [1, 3] \<and> (0::real) \<le> 1 / 2 \<and> (1 / 2 :: real) < 1
   \<and> 2 * 1 \<le> length [1, 3 :: real]
   \<and> comb_counts [1, 3] 2 1 (1 / 2) = Inr [0, 2]
   \<and> comb_parents [1, 3] 2 1 (1 / 2) = Inr [1, 1]
   \<and> [0, 2] ! 1 = length (filter (\<lambda>ic. [1, 1] ! ic = (1::nat)) [0..<2 * 1])"
proof -
  have cs: "cumsum [1, 3] = [1, 4]" by (simp add: cumsum_def)
  have ct: "comb_teeth (1 / 2) 4 2 = [1, 3]" by (simp add: comb_teeth_def numeral_2_eq_2)
  have cc: "comb_counts [1, 3] 2 1 (1 / 2) = Inr [0, 2]"
    by (simp add: comb_counts_def Let_def cs ct comb_count.simps)
  have cp: "comb_parents [1, 3] 2 1 (1 / 2) = Inr [1, 1]"
    by (simp add: comb_parents_def Let_def cs ct upt_rec [of 0 2] upt_rec [of 1 2])
  have h: "(0::real) < sum_list [1, 3]" "(0::real) \<le> 1 / 2" "(1 / 2 :: real) < 1"
    "2 * 1 \<le> length [1, 3 :: real]" by simp_all
  from comb_implementations_agree [OF h] obtain p q where
    "comb_counts [1, 3] 2 1 (1 / 2) = Inr p" "comb_parents [1, 3] 2 1 (1 / 2) = Inr q"
    and v: "\<forall>iw<length [1, 3 :: real]. p ! iw = length (filter (\<lambda>ic. q ! ic = iw) [0..<2 * 1])"
    by blast
  then have pq: "p = [0, 2]" "q = [1, 1]" using cc cp by simp_all
  have "(1::nat) < length [1, 3 :: real]" by simp
  from v [rule_format, OF this]
  have "[0, 2] ! 1 = length (filter (\<lambda>ic. [1, 1] ! ic = (1::nat)) [0..<2 * 1])"
    unfolding pq .
  with h cc cp show ?thesis by blast
qed

lemma sum_list_incr:
  "iw < length p \<Longrightarrow> sum_list (p[iw := p ! iw + 1]) = sum_list p + (1::nat)"
  by (simp add: sum_list_update)

lemma comb_count_sum:
  "comb_count teeth cprobs ic iw p = Inr p' \<Longrightarrow> length p = length cprobs
   \<Longrightarrow> sum_list p' = sum_list p + (length teeth - ic)"
proof (induction teeth cprobs ic iw p rule: comb_count.induct)
  case (1 teeth cprobs ic iw p)
  show ?case
  proof (cases "ic < length teeth")
    case False
    then show ?thesis using "1.prems"(1) by (simp add: comb_count.simps [of teeth cprobs ic iw p])
  next
    case ic: True
    show ?thesis
    proof (cases "iw < length cprobs")
      case False
      then show ?thesis using "1.prems"(1) ic
        by (simp add: comb_count.simps [of teeth cprobs ic iw p])
    next
      case iw: True
      show ?thesis
      proof (cases "teeth ! ic < cprobs ! iw")
        case lt: True
        have r: "comb_count teeth cprobs (ic + 1) iw (p[iw := p ! iw + 1]) = Inr p'"
          using "1.prems"(1) ic iw lt by (simp add: comb_count.simps [of teeth cprobs ic iw p])
        have l: "length (p[iw := p ! iw + 1]) = length cprobs" using "1.prems"(2) by simp
        from "1.IH"(1) [OF ic iw lt r l]
        have "sum_list p' = sum_list (p[iw := p ! iw + 1]) + (length teeth - (ic + 1))" .
        moreover have "sum_list (p[iw := p ! iw + 1]) = sum_list p + 1"
          using iw "1.prems"(2) by (intro sum_list_incr) simp
        ultimately show ?thesis using ic by simp
      next
        case ge: False
        have r: "comb_count teeth cprobs ic (iw + 1) p = Inr p'"
          using "1.prems"(1) ic iw ge by (simp add: comb_count.simps [of teeth cprobs ic iw p])
        from "1.IH"(2) [OF ic iw ge r "1.prems"(2)] show ?thesis .
      qed
    qed
  qed
qed

lemma comb_counts_sum:
  "comb_counts gw n csize r = Inr p \<Longrightarrow> sum_list p = n * csize"
  by (auto simp: comb_counts_def Let_def cumsum_def dest!: comb_count_sum)

text \<open>The two lists in closed form.\<close>

lemma comb_lists_spec:
  "0 < n \<Longrightarrow>
   comb_lists n i ps
     = Inr (concat (map (\<lambda>j. replicate (ps ! (j - i) - 1) (j div n, j mod n)) [i..<i + length ps]),
            map (\<lambda>j. (j div n, j mod n)) (filter (\<lambda>j. ps ! (j - i) = 0) [i..<i + length ps]))"
proof (induction ps arbitrary: i)
  case Nil
  then show ?case by simp
next
  case (Cons w ps)
  define L where "L = [Suc i..<Suc i + length ps]"
  define X where "X = concat (map (\<lambda>j. replicate (ps ! (j - Suc i) - 1) (j div n, j mod n)) L)"
  define Y where "Y = map (\<lambda>j. (j div n, j mod n)) (filter (\<lambda>j. ps ! (j - Suc i) = 0) L)"
  have u: "[i..<i + length (w # ps)] = i # L"
    unfolding L_def by (subst upt_rec) simp
  have k: "\<And>j. j \<in> set L \<Longrightarrow> (w # ps) ! (j - i) = ps ! (j - Suc i)"
    unfolding L_def by (auto simp: nth_Cons')
  have a: "concat (map (\<lambda>j. replicate ((w # ps) ! (j - i) - 1) (j div n, j mod n)) L) = X"
    unfolding X_def using k by (auto intro!: arg_cong [where f = concat])
  have b: "map (\<lambda>j. (j div n, j mod n)) (filter (\<lambda>j. (w # ps) ! (j - i) = 0) L) = Y"
    unfolding Y_def using k by (auto intro!: arg_cong [where f = "map (\<lambda>j. (j div n, j mod n))"] filter_cong)
  have ih: "comb_lists n (Suc i) ps = Inr (X, Y)"
    unfolding L_def X_def Y_def by (rule Cons.IH [OF Cons.prems])
  have r1: "concat (map (\<lambda>j. replicate ((w # ps) ! (j - i) - 1) (j div n, j mod n)) (i # L))
              = replicate (w - 1) (i div n, i mod n) @ X"
    by (simp only: list.map concat.simps a diff_self_eq_0 nth_Cons_0)
  have r2: "map (\<lambda>j. (j div n, j mod n)) (filter (\<lambda>j. (w # ps) ! (j - i) = 0) (i # L))
              = (if w = 0 then (i div n, i mod n) # Y else Y)"
    by (simp only: filter.simps b diff_self_eq_0 nth_Cons_0 list.map if_distrib [of "map _"])
  show ?case
    unfolding u r1 r2 using Cons.prems by (simp add: ih)
qed


lemma comb_lists_lengths:
  "comb_lists n i ps = Inr (send, recv)
   \<Longrightarrow> length send + length ps = sum_list ps + length recv"
proof (induction ps arbitrary: i send recv)
  case Nil
  then show ?case by simp
next
  case (Cons w ps)
  show ?case
  proof (cases "w = 1")
    case True
    then have "comb_lists n (Suc i) ps = Inr (send, recv)" using Cons.prems by simp
    from Cons.IH [OF this] show ?thesis using True by simp
  next
    case w1: False
    then have n: "n \<noteq> 0" using Cons.prems by (auto split: if_splits)
    obtain send' recv' where r: "comb_lists n (Suc i) ps = Inr (send', recv')"
      using Cons.prems w1 n by (auto split: sum.splits)
    note ih = Cons.IH [OF r]
    show ?thesis
    proof (cases "w = 0")
      case True
      then have "send = send'" "recv = (i div n, i mod n) # recv'"
        using Cons.prems r n by simp_all
      then show ?thesis using ih True by simp
    next
      case False
      then have "send = replicate (w - 1) (i div n, i mod n) @ send'" "recv = recv'"
        using Cons.prems r n w1 by simp_all
      then show ?thesis using ih False by simp
    qed
  qed
qed

lemma idx_inj:
  "0 < n \<Longrightarrow> inj (\<lambda>j::nat. (j div n, j mod n))"
proof (rule injI)
  fix x y :: nat
  assume "0 < n" and e: "(x div n, x mod n) = (y div n, y mod n)"
  have "x = (x div n) * n + x mod n" by simp
  also have "\<dots> = (y div n) * n + y mod n" using e by simp
  also have "\<dots> = y" by simp
  finally show "x = y" .
qed

lemma idx_range:
  "0 < n \<Longrightarrow> j < n * k \<Longrightarrow> j div n < k \<and> j mod n < (n::nat)"
  using less_mult_imp_div_less [of j k n] by (simp add: mult.commute)

lemma collect_buffers_spec:
  "\<forall>pr\<in>set prs. fst (fst pr) = k \<longrightarrow> snd (fst pr) < length ws \<Longrightarrow>
   collect_buffers gb k i ws prs
     = Inr (map (\<lambda>(t, s, r). (t, fst r, gb (ws ! snd s)))
              (filter (\<lambda>(t, s, r). fst s = k) (enumerate i prs)))"
proof (induction prs arbitrary: i)
  case Nil
  then show ?case by simp
next
  case (Cons pr prs)
  obtain s r where pr: "pr = (s, r)" by (cases pr)
  have "\<forall>pr\<in>set prs. fst (fst pr) = k \<longrightarrow> snd (fst pr) < length ws" using Cons.prems by simp
  note ih = Cons.IH [OF this, of "Suc i"]
  show ?case
  proof (cases "k = fst s")
    case True
    then have "snd s < length ws" using Cons.prems pr by simp
    then show ?thesis using True pr unfolding pr by (simp add: ih [unfolded True] del: enumerate_simps(2)) (simp add: True)
  next
    case False
    then show ?thesis unfolding pr by (simp add: ih)
  qed
qed

lemma apply_buffers_spec:
  assumes "\<forall>pr\<in>set prs. (is_FakeComm c \<or> rank c = fst (snd pr)) \<longrightarrow> snd (snd pr) < length ws"
    and "distinct (map (\<lambda>pr. snd (snd pr))
                     (filter (\<lambda>pr. is_FakeComm c \<or> rank c = fst (snd pr)) prs))"
    and "is_FakeComm c \<longrightarrow> i + length prs \<le> length bufs"
  shows "\<exists>ws'. apply_buffers sb c bufs i prs ws = Inr ws' \<and> length ws' = length ws
     \<and> (\<forall>j<length prs. (is_FakeComm c \<or> rank c = fst (snd (prs ! j))) \<longrightarrow>
            ws' ! snd (snd (prs ! j))
              = sb (ws ! snd (snd (prs ! j)))
                   (if is_FakeComm c then bufs ! (i + j)
                    else comm_recv c (fst (fst (prs ! j))) (i + j)))
     \<and> (\<forall>l<length ws. (\<forall>pr\<in>set prs. (is_FakeComm c \<or> rank c = fst (snd pr)) \<longrightarrow> snd (snd pr) \<noteq> l)
            \<longrightarrow> ws' ! l = ws ! l)"
  using assms
proof (induction prs arbitrary: i ws)
  case Nil
  then show ?case by simp
next
  case (Cons pr prs)
  obtain s r where pr: "pr = (s, r)" by (cases pr)
  let ?rel = "\<lambda>pr. is_FakeComm c \<or> rank c = fst (snd pr)"
  let ?buf = "\<lambda>i s. if is_FakeComm c then bufs ! i else comm_recv c (fst s) i"
  show ?case
  proof (cases "?rel pr")
    case rel: True
    define t where "t = snd r"
    define ws1 where "ws1 = ws[t := sb (ws ! t) (?buf i s)]"
    have t: "t < length ws" using Cons.prems(1) rel pr by (auto simp: t_def)
    have ib: "is_FakeComm c \<longrightarrow> i < length bufs" using Cons.prems(3) by auto
    have step: "apply_buffers sb c bufs i (pr # prs) ws = apply_buffers sb c bufs (Suc i) prs ws1"
      using rel pr t ib by (auto simp: t_def ws1_def)
    have p1: "\<forall>pr\<in>set prs. ?rel pr \<longrightarrow> snd (snd pr) < length ws1"
      using Cons.prems(1) by (simp add: ws1_def)
    have p2: "distinct (map (\<lambda>pr. snd (snd pr)) (filter ?rel prs))"
      using Cons.prems(2) by (simp split: if_splits)
    have p3: "is_FakeComm c \<longrightarrow> Suc i + length prs \<le> length bufs" using Cons.prems(3) by simp
    have fresh: "\<forall>pr\<in>set prs. ?rel pr \<longrightarrow> snd (snd pr) \<noteq> t"
    proof (intro ballI impI)
      fix q assume q: "q \<in> set prs" "?rel q"
      have "t \<notin> set (map (\<lambda>pr. snd (snd pr)) (filter ?rel prs))"
        using Cons.prems(2) rel pr by (simp add: t_def)
      moreover have "snd (snd q) \<in> set (map (\<lambda>pr. snd (snd pr)) (filter ?rel prs))"
        using q by force
      ultimately show "snd (snd q) \<noteq> t" by metis
    qed
    from Cons.IH [OF p1 p2 p3] obtain ws' where
      r: "apply_buffers sb c bufs (Suc i) prs ws1 = Inr ws'"
      and l: "length ws' = length ws1"
      and v: "\<forall>j<length prs. ?rel (prs ! j) \<longrightarrow>
                ws' ! snd (snd (prs ! j)) = sb (ws1 ! snd (snd (prs ! j))) (?buf (Suc i + j) (fst (prs ! j)))"
      and u: "\<forall>l<length ws1. (\<forall>pr\<in>set prs. ?rel pr \<longrightarrow> snd (snd pr) \<noteq> l) \<longrightarrow> ws' ! l = ws1 ! l"
      by blast
    have l': "length ws' = length ws" using l by (simp add: ws1_def)
    have a: "\<forall>j<length (pr # prs). ?rel ((pr # prs) ! j) \<longrightarrow>
            ws' ! snd (snd ((pr # prs) ! j))
              = sb (ws ! snd (snd ((pr # prs) ! j))) (?buf (i + j) (fst ((pr # prs) ! j)))"
    proof (intro allI impI)
      fix j assume j: "j < length (pr # prs)" and rj: "?rel ((pr # prs) ! j)"
      show "ws' ! snd (snd ((pr # prs) ! j))
              = sb (ws ! snd (snd ((pr # prs) ! j))) (?buf (i + j) (fst ((pr # prs) ! j)))"
      proof (cases j)
        case 0
        have "ws' ! t = ws1 ! t" using u fresh t by (simp add: ws1_def)
        also have "\<dots> = sb (ws ! t) (?buf i s)" using t by (simp add: ws1_def)
        finally show ?thesis using 0 pr by (simp add: t_def)
      next
        case (Suc j')
        have j': "j' < length prs" using j Suc by simp
        have rj': "?rel (prs ! j')" using rj Suc by simp
        have "prs ! j' \<in> set prs" using j' by simp
        then have ne: "snd (snd (prs ! j')) \<noteq> t" using fresh rj' by blast
        have "ws' ! snd (snd (prs ! j'))
                = sb (ws1 ! snd (snd (prs ! j'))) (?buf (Suc i + j') (fst (prs ! j')))"
          using v j' rj' by blast
        moreover have "ws1 ! snd (snd (prs ! j')) = ws ! snd (snd (prs ! j'))"
          using ne by (simp add: ws1_def)
        ultimately show ?thesis using Suc by simp
      qed
    qed
    have b: "\<forall>l<length ws. (\<forall>pr\<in>set (pr # prs). ?rel pr \<longrightarrow> snd (snd pr) \<noteq> l) \<longrightarrow> ws' ! l = ws ! l"
    proof (intro allI impI)
      fix l assume ll: "l < length ws" and f: "\<forall>pr\<in>set (pr # prs). ?rel pr \<longrightarrow> snd (snd pr) \<noteq> l"
      have lt: "l \<noteq> t" using f rel pr by (auto simp: t_def)
      have "ws' ! l = ws1 ! l" using u ll f by (simp add: ws1_def)
      then show "ws' ! l = ws ! l" using lt by (simp add: ws1_def)
    qed
    show ?thesis using step r l' a b by (simp only:) blast
  next
    case nrel: False
    have step: "apply_buffers sb c bufs i (pr # prs) ws = apply_buffers sb c bufs (Suc i) prs ws"
      using nrel pr by simp
    have p1: "\<forall>pr\<in>set prs. ?rel pr \<longrightarrow> snd (snd pr) < length ws" using Cons.prems(1) by simp
    have p2: "distinct (map (\<lambda>pr. snd (snd pr)) (filter ?rel prs))"
      using Cons.prems(2) nrel by simp
    have p3: "is_FakeComm c \<longrightarrow> Suc i + length prs \<le> length bufs" using Cons.prems(3) by simp
    from Cons.IH [OF p1 p2 p3] obtain ws' where
      r: "apply_buffers sb c bufs (Suc i) prs ws = Inr ws'"
      and l: "length ws' = length ws"
      and v: "\<forall>j<length prs. ?rel (prs ! j) \<longrightarrow>
                ws' ! snd (snd (prs ! j)) = sb (ws ! snd (snd (prs ! j))) (?buf (Suc i + j) (fst (prs ! j)))"
      and u: "\<forall>l<length ws. (\<forall>pr\<in>set prs. ?rel pr \<longrightarrow> snd (snd pr) \<noteq> l) \<longrightarrow> ws' ! l = ws ! l"
      by blast
    have a: "\<forall>j<length (pr # prs). ?rel ((pr # prs) ! j) \<longrightarrow>
            ws' ! snd (snd ((pr # prs) ! j))
              = sb (ws ! snd (snd ((pr # prs) ! j))) (?buf (i + j) (fst ((pr # prs) ! j)))"
    proof (intro allI impI)
      fix j assume j: "j < length (pr # prs)" and rj: "?rel ((pr # prs) ! j)"
      show "ws' ! snd (snd ((pr # prs) ! j))
              = sb (ws ! snd (snd ((pr # prs) ! j))) (?buf (i + j) (fst ((pr # prs) ! j)))"
      proof (cases j)
        case 0
        then show ?thesis using rj nrel by simp
      next
        case (Suc j')
        have j': "j' < length prs" using j Suc by simp
        have rj': "?rel (prs ! j')" using rj Suc by simp
        have "ws' ! snd (snd (prs ! j'))
                = sb (ws ! snd (snd (prs ! j'))) (?buf (Suc i + j') (fst (prs ! j')))"
          using v j' rj' by blast
        then show ?thesis using Suc by simp
      qed
    qed
    have b: "\<forall>l<length ws. (\<forall>pr\<in>set (pr # prs). ?rel pr \<longrightarrow> snd (snd pr) \<noteq> l) \<longrightarrow> ws' ! l = ws ! l"
      using u by simp
    show ?thesis using step r l a b by (simp only:) blast
  qed
qed


lemma distinct_local_targets:
  assumes "distinct (map snd prs)"
  shows "distinct (map (\<lambda>pr. snd (snd pr)) (filter (\<lambda>pr. fst (snd pr) = k) prs))"
proof -
  have "map (\<lambda>pr. snd (snd pr)) (filter (\<lambda>pr. fst (snd pr) = k) prs)
          = map snd (filter (\<lambda>r. fst r = k) (map snd prs))"
    by (induction prs) simp_all
  moreover have "distinct (map snd (filter (\<lambda>r. fst r = k) (map snd prs)))"
  proof (rule distinct_map [THEN iffD2], intro conjI)
    show "distinct (filter (\<lambda>r. fst r = k) (map snd prs))" using assms by simp
    show "inj_on snd (set (filter (\<lambda>r. fst r = k) (map snd prs)))"
      by (rule inj_onI) (auto simp: prod_eq_iff)
  qed
  ultimately show ?thesis by simp
qed

lemma enumerate_all_local:
  "\<forall>pr\<in>set prs. fst (fst pr) = k
   \<Longrightarrow> filter (\<lambda>(t, s, r). fst s = k) (enumerate i prs) = enumerate i prs"
  by (induction prs arbitrary: i) auto

lemma comb_resamples:
  assumes nt: "ntot_walkers H \<noteq> 1" and nl: "nw H = length (walkers H)"
    and rk: "rank c < comm_size c" and fk: "is_FakeComm c \<longrightarrow> comm_size c = 1"
    and lg: "length gw = nw H * comm_size c" and tot: "0 < sum_list gw" and r1: "r < 1"
    and root: "rank c = 0 \<longrightarrow> Gather c (map (\<lambda>w. \<bar>weight w\<bar>) (walkers H)) = gw \<and> draws g (pos g) = r"
    and other: "rank c \<noteq> 0 \<longrightarrow> comb_counts gw (nw H) (comm_size c) r = Inr (Bcast c)"
    and H1: "H1 = set_total_weight (if rank c = 0 then Some (sum_list gw) else None) H"
  shows "\<exists>p sendl recvl H' msgs.
           comb_counts gw (nw H) (comm_size c) r = Inr p \<and> length p = length gw
         \<and> (\<forall>iw<length gw.
               p ! iw = length (filter (\<lambda>ic. first_exceeding (cumsum gw)
                                   ((real ic + r) * (sum_list gw / real (nw H * comm_size c))) iw)
                                 [0..<nw H * comm_size c]))
         \<and> sendl = concat (map (\<lambda>j. replicate (p ! j - 1) (j div nw H, j mod nw H)) [0..<length p])
         \<and> recvl = map (\<lambda>j. (j div nw H, j mod nw H)) (filter (\<lambda>j. p ! j = 0) [0..<length p])
         \<and> length sendl = length recvl
         \<and> comb gb sb c H g = Inr (H', if rank c = 0 then g\<lparr>pos := pos g + 1\<rparr> else g, msgs)
         \<and> msgs = map (\<lambda>(t, s, r). (t, fst r, gb (walkers H1 ! snd s)))
                     (filter (\<lambda>(t, s, r). fst s = rank c) (enumerate 0 (zip sendl recvl)))
         \<and> H' = H\<lparr>walkers := walkers H'\<rparr>
         \<and> length (walkers H') = length (walkers H)
         \<and> (\<forall>l<length (walkers H). p ! (rank c * nw H + l) \<noteq> 0
               \<longrightarrow> walkers H' ! l = (walkers H1 ! l)\<lparr>weight := 1\<rparr>)
         \<and> (\<forall>j<length recvl. fst (recvl ! j) = rank c
               \<longrightarrow> walkers H' ! snd (recvl ! j)
                     = (sb (walkers H1 ! snd (recvl ! j))
                           (if is_FakeComm c then gb (walkers H1 ! snd (sendl ! j))
                            else comm_recv c (fst (sendl ! j)) j))\<lparr>weight := 1\<rparr>)
         \<and> (\<forall>w\<in>set (walkers H'). weight w = 1)"
proof -
  let ?n = "nw H"
  let ?k = "rank c"
  let ?idx = "\<lambda>j. (j div ?n, j mod ?n)"
  from comb_counts_spec [OF tot r1, of "nw H" "comm_size c"] obtain p where
    p: "comb_counts gw ?n (comm_size c) r = Inr p" and lp: "length p = length gw"
    and pv: "\<forall>iw<length gw.
               p ! iw = length (filter (\<lambda>ic. first_exceeding (cumsum gw)
                                   (comb_teeth r (sum_list gw) (?n * comm_size c) ! ic) iw)
                                 [0..<?n * comm_size c])"
    by blast
  have pv': "\<forall>iw<length gw.
               p ! iw = length (filter (\<lambda>ic. first_exceeding (cumsum gw)
                                   ((real ic + r) * (sum_list gw / real (?n * comm_size c))) iw)
                                 [0..<?n * comm_size c])"
  proof (intro allI impI)
    fix iw assume iw: "iw < length gw"
    have "filter (\<lambda>ic. first_exceeding (cumsum gw) (comb_teeth r (sum_list gw) (?n * comm_size c) ! ic) iw)
             [0..<?n * comm_size c]
        = filter (\<lambda>ic. first_exceeding (cumsum gw)
                   ((real ic + r) * (sum_list gw / real (?n * comm_size c))) iw) [0..<?n * comm_size c]"
      by (rule filter_cong [OF refl]) (simp add: nth_comb_teeth)
    then show "p ! iw = length (filter (\<lambda>ic. first_exceeding (cumsum gw)
                   ((real ic + r) * (sum_list gw / real (?n * comm_size c))) iw) [0..<?n * comm_size c])"
      using pv iw by simp
  qed
  have sp: "sum_list p = ?n * comm_size c" by (rule comb_counts_sum [OF p])
  have gne: "gw \<noteq> []" using tot by auto
  have n0: "0 < ?n" using gne lg by (cases "?n") auto
  define sendl where "sendl = concat (map (\<lambda>j. replicate (p ! j - 1) (?idx j)) [0..<length p])"
  define recvl where "recvl = map ?idx (filter (\<lambda>j. p ! j = 0) [0..<length p])"
  define prs where "prs = zip sendl recvl"
  have cl: "comb_lists ?n 0 p = Inr (sendl, recvl)"
    using comb_lists_spec [OF n0, of 0 p] by (simp add: sendl_def recvl_def)
  have ll: "length sendl = length recvl"
    using comb_lists_lengths [OF cl] sp lp lg by simp
  have lprs: "length prs = length recvl" using ll by (simp add: prs_def)
  have nprs: "\<And>j. j < length recvl \<Longrightarrow> prs ! j = (sendl ! j, recvl ! j)"
    using ll by (simp add: prs_def)
  have msnd: "map snd prs = recvl" using ll by (simp add: prs_def)
  have sent: "\<forall>s\<in>set sendl. fst s < comm_size c \<and> snd s < ?n"
    using idx_range [OF n0, of _ "comm_size c"] lp lg by (auto simp: sendl_def)
  have rent: "\<forall>x\<in>set recvl. fst x < comm_size c \<and> snd x < ?n"
    using idx_range [OF n0, of _ "comm_size c"] lp lg by (auto simp: recvl_def)
  have dr: "distinct recvl"
    unfolding recvl_def
    by (rule distinct_map [THEN iffD2]) (simp add: inj_on_subset [OF idx_inj [OF n0]])
  define tw where "tw = (if ?k = 0 then Some (sum_list gw) else None)"
  define g' where "g' = (if ?k = 0 then g\<lparr>pos := pos g + 1\<rparr> else g)"
  have H1': "H1 = set_total_weight tw H" using H1 by (simp add: tw_def)
  have nw1: "nw H1 = ?n" and lw1: "length (walkers H1) = ?n"
    using nl by (simp_all add: H1' set_total_weight_def)
  have fake0: "is_FakeComm c \<Longrightarrow> \<forall>x\<in>set recvl. fst x = ?k"
    and fake0s: "is_FakeComm c \<Longrightarrow> \<forall>s\<in>set sendl. fst s = ?k"
    using fk rk rent sent by auto
  have inprs: "\<And>pr. pr \<in> set prs \<Longrightarrow> fst pr \<in> set sendl \<and> snd pr \<in> set recvl"
  proof -
    fix pr assume "pr \<in> set prs"
    then have "(fst pr, snd pr) \<in> set (zip sendl recvl)" by (simp add: prs_def)
    then show "fst pr \<in> set sendl \<and> snd pr \<in> set recvl"
      by (blast dest: set_zip_leftD set_zip_rightD)
  qed
  have releq: "filter (\<lambda>pr. is_FakeComm c \<or> ?k = fst (snd pr)) prs
                 = filter (\<lambda>pr. fst (snd pr) = ?k) prs"
  proof (rule filter_cong [OF refl])
    fix pr assume pr: "pr \<in> set prs"
    show "(is_FakeComm c \<or> ?k = fst (snd pr)) = (fst (snd pr) = ?k)"
    proof (cases "is_FakeComm c")
      case True
      have "snd pr \<in> set recvl" using inprs [OF pr] by simp
      then have "fst (snd pr) = ?k" using fake0 [OF True] by blast
      then show ?thesis using True by simp
    next
      case False
      then show ?thesis by auto
    qed
  qed
  have c1: "\<forall>pr\<in>set prs. fst (fst pr) = ?k \<longrightarrow> snd (fst pr) < length (walkers H1)"
    using inprs sent lw1 by auto
  define msgs where "msgs = map (\<lambda>(t, s, r). (t, fst r, gb (walkers H1 ! snd s)))
                     (filter (\<lambda>(t, s, r). fst s = ?k) (enumerate 0 prs))"
  have cb: "collect_buffers gb ?k 0 (walkers H1) prs = Inr msgs"
    unfolding msgs_def by (rule collect_buffers_spec [OF c1])
  define bufs where "bufs = map (\<lambda>m. snd (snd m)) msgs"
  have fmsgs: "is_FakeComm c \<Longrightarrow> msgs = map (\<lambda>(t, s, r). (t, fst r, gb (walkers H1 ! snd s))) (enumerate 0 prs)"
  proof -
    assume f: "is_FakeComm c"
    have "\<forall>pr\<in>set prs. fst (fst pr) = ?k" using fake0s [OF f] inprs by auto
    from enumerate_all_local [OF this] show ?thesis by (simp add: msgs_def)
  qed
  have fbl: "is_FakeComm c \<Longrightarrow> length bufs = length prs"
    by (simp add: bufs_def fmsgs)
  have fbn: "\<And>j. is_FakeComm c \<Longrightarrow> j < length recvl \<Longrightarrow> bufs ! j = gb (walkers H1 ! snd (sendl ! j))"
    using lprs by (simp add: bufs_def fmsgs nth_enumerate_eq nprs)
  have a1: "\<forall>pr\<in>set prs. (is_FakeComm c \<or> ?k = fst (snd pr)) \<longrightarrow> snd (snd pr) < length (walkers H1)"
    using inprs rent lw1 by auto
  have a2: "distinct (map (\<lambda>pr. snd (snd pr)) (filter (\<lambda>pr. is_FakeComm c \<or> ?k = fst (snd pr)) prs))"
    unfolding releq by (rule distinct_local_targets) (simp add: msnd dr)
  have a3: "is_FakeComm c \<longrightarrow> 0 + length prs \<le> length bufs" using fbl by simp
  from apply_buffers_spec [OF a1 a2 a3, of sb] obtain ws' where
    ab: "apply_buffers sb c bufs 0 prs (walkers H1) = Inr ws'"
    and lw': "length ws' = length (walkers H1)"
    and got: "\<forall>j<length prs. (is_FakeComm c \<or> ?k = fst (snd (prs ! j))) \<longrightarrow>
            ws' ! snd (snd (prs ! j))
              = sb (walkers H1 ! snd (snd (prs ! j)))
                   (if is_FakeComm c then bufs ! (0 + j)
                    else comm_recv c (fst (fst (prs ! j))) (0 + j))"
    and kept: "\<forall>l<length (walkers H1).
            (\<forall>pr\<in>set prs. (is_FakeComm c \<or> ?k = fst (snd pr)) \<longrightarrow> snd (snd pr) \<noteq> l)
            \<longrightarrow> ws' ! l = walkers H1 ! l"
    by blast
  define H' where "H' = H1\<lparr>walkers := map (\<lambda>w. w\<lparr>weight := 1\<rparr>) ws'\<rparr>"
  have cl1: "comb_lists (nw H1) 0 p = Inr (sendl, recvl)" using cl nw1 by simp
  note cb1 = cb [unfolded prs_def]
  note ab1 = ab [unfolded prs_def bufs_def]
  have run: "comb gb sb c H g = Inr (H', g', msgs)"
  proof (cases "?k = 0")
    case True
    have e: "Gather c (map (\<lambda>w. \<bar>weight w\<bar>) (walkers H)) = gw" "draws g (pos g) = r"
      using root True by auto
    have h: "set_total_weight (Some (sum_list gw)) H = H1" using H1 True by simp
    show ?thesis
      using nt True
      by (simp add: comb_def Let_def random_def e p h cl1 cb1 [unfolded True] ab1 H'_def g'_def)
  next
    case False
    have e: "Bcast c = p" using other p False by simp
    have h: "set_total_weight None H = H1" using H1 False by simp
    show ?thesis
      using nt False
      by (simp add: comb_def Let_def e h cl1 cb1 ab1 H'_def g'_def)
  qed
  have hh: "H' = H\<lparr>walkers := walkers H'\<rparr>"
    by (simp add: H'_def H1' set_total_weight_def)
  have lH: "length (walkers H') = length (walkers H)"
    using lw' lw1 nl by (simp add: H'_def)
  have keep: "\<forall>l<length (walkers H). p ! (?k * ?n + l) \<noteq> 0
               \<longrightarrow> walkers H' ! l = (walkers H1 ! l)\<lparr>weight := 1\<rparr>"
  proof (intro allI impI)
    fix l assume l: "l < length (walkers H)" and nz: "p ! (?k * ?n + l) \<noteq> 0"
    have ln: "l < ?n" using l nl by simp
    have "\<forall>pr\<in>set prs. (is_FakeComm c \<or> ?k = fst (snd pr)) \<longrightarrow> snd (snd pr) \<noteq> l"
    proof (intro ballI impI notI)
      fix pr assume pr: "pr \<in> set prs" and rel: "is_FakeComm c \<or> ?k = fst (snd pr)"
        and e: "snd (snd pr) = l"
      have m: "snd pr \<in> set recvl" using inprs [OF pr] by simp
      have fk': "fst (snd pr) = ?k" using rel fake0 m by auto
      from m obtain j where j: "j < length p" "p ! j = 0" "snd pr = ?idx j"
        by (auto simp: recvl_def)
      have "j = (j div ?n) * ?n + j mod ?n" by simp
      also have "\<dots> = ?k * ?n + l" using j(3) fk' e by (simp add: prod_eq_iff)
      finally show False using j(2) nz by simp
    qed
    then have "ws' ! l = walkers H1 ! l" using kept ln lw1 by simp
    then show "walkers H' ! l = (walkers H1 ! l)\<lparr>weight := 1\<rparr>"
      using ln lw' lw1 by (simp add: H'_def)
  qed
  have recvd: "\<forall>j<length recvl. fst (recvl ! j) = ?k
               \<longrightarrow> walkers H' ! snd (recvl ! j)
                     = (sb (walkers H1 ! snd (recvl ! j))
                           (if is_FakeComm c then gb (walkers H1 ! snd (sendl ! j))
                            else comm_recv c (fst (sendl ! j)) j))\<lparr>weight := 1\<rparr>"
  proof (intro allI impI)
    fix j assume j: "j < length recvl" and f: "fst (recvl ! j) = ?k"
    have jp: "j < length prs" using j lprs by simp
    have pj: "prs ! j = (sendl ! j, recvl ! j)" using nprs [OF j] .
    have "recvl ! j \<in> set recvl" using j by simp
    then have t: "snd (recvl ! j) < length ws'" using rent lw' lw1 by simp
    have "ws' ! snd (recvl ! j)
              = sb (walkers H1 ! snd (recvl ! j))
                   (if is_FakeComm c then bufs ! j else comm_recv c (fst (sendl ! j)) j)"
      using got [rule_format, OF jp] f by (simp add: pj)
    then have "ws' ! snd (recvl ! j)
              = sb (walkers H1 ! snd (recvl ! j))
                   (if is_FakeComm c then gb (walkers H1 ! snd (sendl ! j))
                    else comm_recv c (fst (sendl ! j)) j)"
      using fbn [OF _ j] by (cases "is_FakeComm c") simp_all
    then show "walkers H' ! snd (recvl ! j)
                     = (sb (walkers H1 ! snd (recvl ! j))
                           (if is_FakeComm c then gb (walkers H1 ! snd (sendl ! j))
                            else comm_recv c (fst (sendl ! j)) j))\<lparr>weight := 1\<rparr>"
      using t by (simp add: H'_def)
  qed
  have one: "\<forall>w\<in>set (walkers H'). weight w = 1" by (auto simp: H'_def)
  show ?thesis
    using p lp pv' sendl_def recvl_def ll run [unfolded g'_def] msgs_def [unfolded prs_def] hh lH keep recvd one
    by blast
qed

text \<open>
  C2. A comb step of the handler, as the process of any rank runs it. Given more than one
  walker in total, every walker of the process counted in \<open>nw\<close>, gathered weights \<open>gw\<close>
  with \<open>nw\<close> entries per process and a positive total, and a communicator that hands the
  root the gathered weights and every other process the root's \<open>parent_ix\<close>: the root
  draws one number \<open>r\<close> and the other processes draw none; the sampling points are
  \<open>(i + r) * (total / N)\<close> for \<open>i < N\<close>, \<open>N\<close> being \<open>nw\<close> times the number of processes;
  the count of walker \<open>iw\<close> is the number of points for which \<open>iw\<close> is the first walker
  whose cumulative weight exceeds the point; the walkers without a point are paired, in
  order, with the walkers that have more than one, a walker with \<open>c\<close> points being listed
  \<open>c - 1\<close> times; the process sends the buffer of each of its listed walkers, each of its
  walkers without a point takes the buffer of the walker it is paired with, and its other
  walkers stay; the step returns, and every weight is 1 afterwards. Over a single walker
  in total the step draws nothing: it sets the weight of the first walker to 1 and returns.
\<close>

theorem comb_step:
  "(ntot_walkers H \<noteq> 1 \<and> nw H = length (walkers H)
      \<and> rank c < comm_size c \<and> (is_FakeComm c \<longrightarrow> comm_size c = 1)
      \<and> length gw = nw H * comm_size c \<and> 0 < sum_list gw \<and> r < 1
      \<and> (rank c = 0 \<longrightarrow> Gather c (map (\<lambda>w. \<bar>weight w\<bar>) (walkers H)) = gw \<and> draws g (pos g) = r)
      \<and> (rank c \<noteq> 0 \<longrightarrow> comb_counts gw (nw H) (comm_size c) r = Inr (Bcast c))
      \<and> H1 = set_total_weight (if rank c = 0 then Some (sum_list gw) else None) H
    \<longrightarrow> (\<exists>p sendl recvl H' msgs.
           comb_counts gw (nw H) (comm_size c) r = Inr p \<and> length p = length gw
         \<and> (\<forall>iw<length gw.
               p ! iw = length (filter (\<lambda>ic. first_exceeding (cumsum gw)
                                   ((real ic + r) * (sum_list gw / real (nw H * comm_size c))) iw)
                                 [0..<nw H * comm_size c]))
         \<and> sendl = concat (map (\<lambda>j. replicate (p ! j - 1) (j div nw H, j mod nw H)) [0..<length p])
         \<and> recvl = map (\<lambda>j. (j div nw H, j mod nw H)) (filter (\<lambda>j. p ! j = 0) [0..<length p])
         \<and> length sendl = length recvl
         \<and> comb gb sb c H g = Inr (H', if rank c = 0 then g\<lparr>pos := pos g + 1\<rparr> else g, msgs)
         \<and> msgs = map (\<lambda>(t, s, r). (t, fst r, gb (walkers H1 ! snd s)))
                     (filter (\<lambda>(t, s, r). fst s = rank c) (enumerate 0 (zip sendl recvl)))
         \<and> H' = H\<lparr>walkers := walkers H'\<rparr>
         \<and> length (walkers H') = length (walkers H)
         \<and> (\<forall>l<length (walkers H). p ! (rank c * nw H + l) \<noteq> 0
               \<longrightarrow> walkers H' ! l = (walkers H1 ! l)\<lparr>weight := 1\<rparr>)
         \<and> (\<forall>j<length recvl. fst (recvl ! j) = rank c
               \<longrightarrow> walkers H' ! snd (recvl ! j)
                     = (sb (walkers H1 ! snd (recvl ! j))
                           (if is_FakeComm c then gb (walkers H1 ! snd (sendl ! j))
                            else comm_recv c (fst (sendl ! j)) j))\<lparr>weight := 1\<rparr>)
         \<and> (\<forall>w\<in>set (walkers H'). weight w = 1)))
   \<and> (ntot_walkers H = 1 \<and> walkers H = w # ws
      \<longrightarrow> comb gb sb c H g = Inr (H\<lparr>walkers := w\<lparr>weight := 1\<rparr> # ws\<rparr>, g, []))"
proof (intro conjI impI)
  assume a: "ntot_walkers H \<noteq> 1 \<and> nw H = length (walkers H)
      \<and> rank c < comm_size c \<and> (is_FakeComm c \<longrightarrow> comm_size c = 1)
      \<and> length gw = nw H * comm_size c \<and> 0 < sum_list gw \<and> r < 1
      \<and> (rank c = 0 \<longrightarrow> Gather c (map (\<lambda>w. \<bar>weight w\<bar>) (walkers H)) = gw \<and> draws g (pos g) = r)
      \<and> (rank c \<noteq> 0 \<longrightarrow> comb_counts gw (nw H) (comm_size c) r = Inr (Bcast c))
      \<and> H1 = set_total_weight (if rank c = 0 then Some (sum_list gw) else None) H"
  then have h: "ntot_walkers H \<noteq> 1" "nw H = length (walkers H)"
    "rank c < comm_size c" "is_FakeComm c \<longrightarrow> comm_size c = 1"
    "length gw = nw H * comm_size c" "0 < sum_list gw" "r < 1"
    "rank c = 0 \<longrightarrow> Gather c (map (\<lambda>w. \<bar>weight w\<bar>) (walkers H)) = gw \<and> draws g (pos g) = r"
    "rank c \<noteq> 0 \<longrightarrow> comb_counts gw (nw H) (comm_size c) r = Inr (Bcast c)"
    "H1 = set_total_weight (if rank c = 0 then Some (sum_list gw) else None) H"
    by blast+
  show "\<exists>p sendl recvl H' msgs.
           comb_counts gw (nw H) (comm_size c) r = Inr p \<and> length p = length gw
         \<and> (\<forall>iw<length gw.
               p ! iw = length (filter (\<lambda>ic. first_exceeding (cumsum gw)
                                   ((real ic + r) * (sum_list gw / real (nw H * comm_size c))) iw)
                                 [0..<nw H * comm_size c]))
         \<and> sendl = concat (map (\<lambda>j. replicate (p ! j - 1) (j div nw H, j mod nw H)) [0..<length p])
         \<and> recvl = map (\<lambda>j. (j div nw H, j mod nw H)) (filter (\<lambda>j. p ! j = 0) [0..<length p])
         \<and> length sendl = length recvl
         \<and> comb gb sb c H g = Inr (H', if rank c = 0 then g\<lparr>pos := pos g + 1\<rparr> else g, msgs)
         \<and> msgs = map (\<lambda>(t, s, r). (t, fst r, gb (walkers H1 ! snd s)))
                     (filter (\<lambda>(t, s, r). fst s = rank c) (enumerate 0 (zip sendl recvl)))
         \<and> H' = H\<lparr>walkers := walkers H'\<rparr>
         \<and> length (walkers H') = length (walkers H)
         \<and> (\<forall>l<length (walkers H). p ! (rank c * nw H + l) \<noteq> 0
               \<longrightarrow> walkers H' ! l = (walkers H1 ! l)\<lparr>weight := 1\<rparr>)
         \<and> (\<forall>j<length recvl. fst (recvl ! j) = rank c
               \<longrightarrow> walkers H' ! snd (recvl ! j)
                     = (sb (walkers H1 ! snd (recvl ! j))
                           (if is_FakeComm c then gb (walkers H1 ! snd (sendl ! j))
                            else comm_recv c (fst (sendl ! j)) j))\<lparr>weight := 1\<rparr>)
         \<and> (\<forall>w\<in>set (walkers H'). weight w = 1)"
    by (rule comb_resamples [OF h])
next
  assume "ntot_walkers H = 1 \<and> walkers H = w # ws"
  then show "comb gb sb c H g = Inr (H\<lparr>walkers := w\<lparr>weight := 1\<rparr> # ws\<rparr>, g, [])"
    by (simp add: comb_def)
qed


theorem comb_step_witness:
  "ntot_walkers H_two \<noteq> 1 \<and> nw H_two = length (walkers H_two)
   \<and> rank comm_one < comm_size comm_one \<and> comm_size comm_one = 1
   \<and> Gather comm_one (map (\<lambda>w. \<bar>weight w\<bar>) (walkers H_two)) = [1, 3]
   \<and> draws rng_half (pos rng_half) = 1 / 2
   \<and> comb_counts [1, 3] 2 1 (1 / 2) = Inr [0, 2]
   \<and> comb whole_buffer take_buffer comm_one H_two rng_half
       = Inr (H_two\<lparr>walkers := [hw_b\<lparr>weight := 1, total_weight_w := Some 4\<rparr>,
                                  hw_b\<lparr>weight := 1, total_weight_w := Some 4\<rparr>]\<rparr>,
              rng_half\<lparr>pos := 1\<rparr>, [(0, 0, hw_b\<lparr>total_weight_w := Some 4\<rparr>)])
   \<and> (\<exists>H' msgs. comb whole_buffer take_buffer comm_one H_two rng_half
                    = Inr (H', rng_half\<lparr>pos := 1\<rparr>, msgs)
          \<and> length (walkers H') = 2
          \<and> weight (walkers H' ! 0) = 1 \<and> weight (walkers H' ! 1) = 1)
   \<and> ntot_walkers H_second \<noteq> 1 \<and> nw H_second = length (walkers H_second)
   \<and> rank comm_second = 1 \<and> comm_size comm_second = 2 \<and> \<not> is_FakeComm comm_second
   \<and> comb_counts [1, 3] 1 2 (1 / 2) = Inr (Bcast comm_second)
   \<and> comb whole_buffer take_buffer comm_second H_second rng_half
       = Inr (H_second\<lparr>walkers := [hw_b\<lparr>weight := 1, total_weight_w := None\<rparr>]\<rparr>,
              rng_half, [(0, 0, hw_b\<lparr>total_weight_w := None\<rparr>)])
   \<and> (\<exists>H' msgs. comb whole_buffer take_buffer comm_second H_second rng_half
                    = Inr (H', rng_half, msgs)
          \<and> length (walkers H') = 1 \<and> weight (walkers H' ! 0) = 1)
   \<and> ntot_walkers H_one = 1 \<and> walkers H_one = [hw_b]
   \<and> comb whole_buffer take_buffer comm_one H_one rng_half
       = Inr (H_one\<lparr>walkers := [hw_b\<lparr>weight := 1\<rparr>]\<rparr>, rng_half, [])"
proof -
  have cs: "cumsum [1, 3] = [1, 4]" by (simp add: cumsum_def)
  have ct: "comb_teeth (1 / 2) 4 2 = [1, 3]" by (simp add: comb_teeth_def numeral_2_eq_2)
  have cc: "comb_counts [1, 3] 2 1 (1 / 2) = Inr [0, 2]"
    by (simp add: comb_counts_def Let_def cs ct comb_count.simps)
  have cc2: "comb_counts [1, 3] 1 2 (1 / 2) = Inr [0, 2]"
    by (simp add: comb_counts_def Let_def cs ct comb_count.simps)
  have gw: "map (\<lambda>w. \<bar>weight w\<bar>) (walkers H_two) = [1, 3]"
    by (simp add: H_two_def hw_a_def hw_b_def)
  have h: "ntot_walkers H_two \<noteq> 1" "nw H_two = length (walkers H_two)"
    "rank comm_one < comm_size comm_one" "comm_size comm_one = 1"
    "Gather comm_one (map (\<lambda>w. \<bar>weight w\<bar>) (walkers H_two)) = [1, 3]"
    "draws rng_half (pos rng_half) = 1 / 2"
    unfolding gw by (simp_all add: H_two_def comm_one_def rng_half_def)
  have h': "ntot_walkers H_two \<noteq> 1 \<and> nw H_two = length (walkers H_two)
      \<and> rank comm_one < comm_size comm_one \<and> (is_FakeComm comm_one \<longrightarrow> comm_size comm_one = 1)
      \<and> length [1, 3 :: real] = nw H_two * comm_size comm_one \<and> 0 < sum_list [1, 3 :: real]
      \<and> (1 / 2 :: real) < 1
      \<and> (rank comm_one = 0 \<longrightarrow> Gather comm_one (map (\<lambda>w. \<bar>weight w\<bar>) (walkers H_two)) = [1, 3]
                                 \<and> draws rng_half (pos rng_half) = 1 / 2)
      \<and> (rank comm_one \<noteq> 0 \<longrightarrow> comb_counts [1, 3] (nw H_two) (comm_size comm_one) (1 / 2)
                                   = Inr (Bcast comm_one))
      \<and> set_total_weight (Some 4) H_two
          = set_total_weight (if rank comm_one = 0 then Some (sum_list [1, 3]) else None) H_two"
    using h by (simp add: H_two_def comm_one_def)
  from comb_step [where H = H_two and g = rng_half and gb = whole_buffer and sb = take_buffer
      and c = comm_one and gw = "[1, 3]" and r = "1 / 2"
      and ?H1.0 = "set_total_weight (Some 4) H_two",
      THEN conjunct1, rule_format, OF h']
  obtain H' msgs where
    c: "comb whole_buffer take_buffer comm_one H_two rng_half
          = Inr (H', if rank comm_one = 0 then rng_half\<lparr>pos := pos rng_half + 1\<rparr> else rng_half, msgs)"
    and l: "length (walkers H') = length (walkers H_two)"
    and w: "\<forall>w\<in>set (walkers H'). weight w = 1"
    by blast
  have c1: "comb whole_buffer take_buffer comm_one H_two rng_half = Inr (H', rng_half\<lparr>pos := 1\<rparr>, msgs)"
    using c by (simp add: rng_half_def comm_one_def)
  have l2: "length (walkers H') = 2" using l by (simp add: H_two_def)
  have "walkers H' ! 0 \<in> set (walkers H')" "walkers H' ! 1 \<in> set (walkers H')"
    using l2 by simp_all
  then have w01: "weight (walkers H' ! 0) = 1" "weight (walkers H' ! 1) = 1"
    using w by blast+
  from c1 l2 w01 have x: "\<exists>H' msgs. comb whole_buffer take_buffer comm_one H_two rng_half
                    = Inr (H', rng_half\<lparr>pos := 1\<rparr>, msgs)
          \<and> length (walkers H') = 2
          \<and> weight (walkers H' ! 0) = 1 \<and> weight (walkers H' ! 1) = 1"
    by blast
  have e: "comb whole_buffer take_buffer comm_one H_two rng_half
       = Inr (H_two\<lparr>walkers := [hw_b\<lparr>weight := 1, total_weight_w := Some 4\<rparr>,
                                  hw_b\<lparr>weight := 1, total_weight_w := Some 4\<rparr>]\<rparr>,
              rng_half\<lparr>pos := 1\<rparr>, [(0, 0, hw_b\<lparr>total_weight_w := Some 4\<rparr>)])"
  proof -
    have cc': "comb_counts [1, 3] 2 (Suc 0) (1 / 2) = Inr [0, 2]" using cc by simp
    show ?thesis
      unfolding comb_def gw
      by (simp add: Let_def H_two_def comm_one_def random_def rng_half_def cc' set_total_weight_def
            whole_buffer_def take_buffer_def hw_a_def hw_b_def)
  qed
  have k: "ntot_walkers H_second \<noteq> 1" "nw H_second = length (walkers H_second)"
    "rank comm_second = 1" "comm_size comm_second = 2" "\<not> is_FakeComm comm_second"
    "comb_counts [1, 3] 1 2 (1 / 2) = Inr (Bcast comm_second)"
    using cc2 by (simp_all add: H_second_def comm_second_def)
  have k': "ntot_walkers H_second \<noteq> 1 \<and> nw H_second = length (walkers H_second)
      \<and> rank comm_second < comm_size comm_second
      \<and> (is_FakeComm comm_second \<longrightarrow> comm_size comm_second = 1)
      \<and> length [1, 3 :: real] = nw H_second * comm_size comm_second \<and> 0 < sum_list [1, 3 :: real]
      \<and> (1 / 2 :: real) < 1
      \<and> (rank comm_second = 0 \<longrightarrow> Gather comm_second (map (\<lambda>w. \<bar>weight w\<bar>) (walkers H_second)) = [1, 3]
                                 \<and> draws rng_half (pos rng_half) = 1 / 2)
      \<and> (rank comm_second \<noteq> 0 \<longrightarrow> comb_counts [1, 3] (nw H_second) (comm_size comm_second) (1 / 2)
                                   = Inr (Bcast comm_second))
      \<and> set_total_weight None H_second
          = set_total_weight (if rank comm_second = 0 then Some (sum_list [1, 3]) else None) H_second"
    using k by (simp add: H_second_def)
  from comb_step [where H = H_second and g = rng_half and gb = whole_buffer and sb = take_buffer
      and c = comm_second and gw = "[1, 3]" and r = "1 / 2"
      and ?H1.0 = "set_total_weight None H_second",
      THEN conjunct1, rule_format, OF k']
  obtain H2 msgs2 where
    c2: "comb whole_buffer take_buffer comm_second H_second rng_half
          = Inr (H2, if rank comm_second = 0 then rng_half\<lparr>pos := pos rng_half + 1\<rparr> else rng_half, msgs2)"
    and l2': "length (walkers H2) = length (walkers H_second)"
    and w2: "\<forall>w\<in>set (walkers H2). weight w = 1"
    by blast
  have c2': "comb whole_buffer take_buffer comm_second H_second rng_half = Inr (H2, rng_half, msgs2)"
    using c2 k(3) by simp
  have l21: "length (walkers H2) = 1" using l2' by (simp add: H_second_def)
  then have "walkers H2 ! 0 \<in> set (walkers H2)" by simp
  then have w20: "weight (walkers H2 ! 0) = 1" using w2 by blast
  from c2' l21 w20 have y: "\<exists>H' msgs. comb whole_buffer take_buffer comm_second H_second rng_half
                    = Inr (H', rng_half, msgs)
          \<and> length (walkers H') = 1 \<and> weight (walkers H' ! 0) = 1"
    by blast
  have e2: "comb whole_buffer take_buffer comm_second H_second rng_half
       = Inr (H_second\<lparr>walkers := [hw_b\<lparr>weight := 1, total_weight_w := None\<rparr>]\<rparr>,
              rng_half, [(0, 0, hw_b\<lparr>total_weight_w := None\<rparr>)])"
    by (simp add: comb_def Let_def H_second_def comm_second_def set_total_weight_def
          whole_buffer_def take_buffer_def hw_b_def)
  have o: "ntot_walkers H_one = 1" "walkers H_one = [hw_b]" by (simp_all add: H_one_def)
  then have o': "ntot_walkers H_one = 1 \<and> walkers H_one = hw_b # []" by simp
  from comb_step [where H = H_one and g = rng_half and gb = whole_buffer and sb = take_buffer
      and c = comm_one and w = hw_b and ws = "[]", THEN conjunct2, rule_format, OF o']
  have s: "comb whole_buffer take_buffer comm_one H_one rng_half
       = Inr (H_one\<lparr>walkers := [hw_b\<lparr>weight := 1\<rparr>]\<rparr>, rng_half, [])" .
  from h cc e x k e2 y o s show ?thesis by blast
qed

text \<open>
  A step over a single walker in total returns with the generator untouched, so no offset
  is drawn. With every weight zero no cumulative sum exceeds a sampling point and the scan
  leaves the weight array. With a walker that is not counted in \<open>nw\<close> the lists name a
  process that does not exist and the exchange reads a buffer that was never taken.
\<close>

theorem comb_single_walker_counterexample:
  "ntot_walkers H_one = 1
   \<and> comb whole_buffer take_buffer comm_one H_one rng_half
       = Inr (H_one\<lparr>walkers := [hw_b\<lparr>weight := 1\<rparr>]\<rparr>, rng_half, [])
   \<and> ntot_walkers H_zero = 2
   \<and> comb whole_buffer take_buffer comm_one H_zero rng_half = Inl IndexError
   \<and> ntot_walkers H_dead = 3 \<and> nw H_dead = 2 \<and> length (walkers H_dead) = 3
   \<and> 0 < sum_list (map (\<lambda>w. \<bar>weight w\<bar>) (walkers H_dead))
   \<and> comb whole_buffer take_buffer comm_one H_dead rng_half = Inl IndexError"
proof -
  have a: "comb whole_buffer take_buffer comm_one H_one rng_half
       = Inr (H_one\<lparr>walkers := [hw_b\<lparr>weight := 1\<rparr>]\<rparr>, rng_half, [])"
    by (simp add: comb_def H_one_def)
  have cs: "cumsum [0, 0] = [0, 0]" by (simp add: cumsum_def)
  have ct: "comb_teeth (1 / 2) 0 2 = [0, 0]" by (simp add: comb_teeth_def numeral_2_eq_2)
  have cc: "comb_counts [0, 0] 2 (Suc 0) (1 / 2) = Inl IndexError"
    by (simp add: comb_counts_def Let_def cs ct comb_count.simps)
  have gw: "map (\<lambda>w. \<bar>weight w\<bar>) (walkers H_zero) = [0, 0]"
    by (simp add: H_zero_def hw_z_def)
  have b: "comb whole_buffer take_buffer comm_one H_zero rng_half = Inl IndexError"
    unfolding comb_def gw
    by (simp add: Let_def H_zero_def comm_one_def random_def rng_half_def cc)
  have cs3: "cumsum [1 / 4, 1 / 4, 7 / 2] = [1 / 4, 1 / 2, 4]" by (simp add: cumsum_def)
  have ct3: "comb_teeth (1 / 2) 4 2 = [1, 3]" by (simp add: comb_teeth_def numeral_2_eq_2)
  have cc3: "comb_counts [1 / 4, 1 / 4, 7 / 2] 2 (Suc 0) (1 / 2) = Inr [0, 0, 2]"
    by (simp add: comb_counts_def Let_def cs3 ct3 comb_count.simps numeral_3_eq_3)
  have gw3: "map (\<lambda>w. \<bar>weight w\<bar>) (walkers H_dead) = [1 / 4, 1 / 4, 7 / 2]"
    by (simp add: H_dead_def hw_q_def hw_d_def)
  have d: "comb whole_buffer take_buffer comm_one H_dead rng_half = Inl IndexError"
    unfolding comb_def gw3
    by (simp add: Let_def H_dead_def comm_one_def random_def rng_half_def cc3 set_total_weight_def)
  have p: "0 < sum_list (map (\<lambda>w. \<bar>weight w\<bar>) (walkers H_dead))" unfolding gw3 by simp
  show ?thesis using a b d p by (simp add: H_one_def H_zero_def H_dead_def)
qed

section \<open>Constrained discrete propagation, site by site\<close>

lemma constrained_site_pos:
  "constrained_site e i (w, P, g) = (w', P', g') \<Longrightarrow> pos g' = pos g + 1"
  by (auto simp: constrained_site_def Let_def random_def split: if_splits)

lemma constrained_site_zero:
  "constrained_site e i (w, P, g) = (w', P', g') \<Longrightarrow> weight w = 0 \<Longrightarrow> weight w' = 0"
  by (auto simp: constrained_site_def Let_def random_def update_greens_function_def
           split: if_splits)

lemma constrained_sites_rest:
  "constrained_sites e sites (w, P, g) = (w', P', g')
   \<Longrightarrow> pos g' = pos g + length sites \<and> (weight w = 0 \<longrightarrow> weight w' = 0)"
proof (induction sites arbitrary: w P g)
  case Nil
  then show ?case by simp
next
  case (Cons i sites)
  obtain w1 P1 g1 where s: "constrained_site e i (w, P, g) = (w1, P1, g1)"
    by (cases "constrained_site e i (w, P, g)") auto
  then have r: "constrained_sites e sites (w1, P1, g1) = (w', P', g')"
    using Cons.prems by simp
  from Cons.IH [OF r] constrained_site_pos [OF s] constrained_site_zero [OF s]
  show ?case by auto
qed

text \<open>
  C5, as the code has it. At a site the real parts of the two overlap ratios are clipped at
  0 and one number is drawn. If the sum of the clipped ratios is positive, the weight is
  multiplied by the sum and by \<open>exp eshift\<close>, the field is 0 when the draw is below the
  first clipped ratio over the sum and 1 otherwise, and the Green's function and \<open>BV\<close> are
  updated for that field. If the sum is not positive the weight becomes 0 and nothing else
  changes. In both cases the sweep goes on: each remaining site makes its draw, and a weight
  that is 0 stays 0.
\<close>

theorem constrained_site_rule:
  assumes "constrained_site eshift i (w, P, g) = (w', P', g')"
    and "p0 = max (Re (fst (calculate_overlap_ratio P w i))) 0"
    and "p1 = max (Re (snd (calculate_overlap_ratio P w i))) 0"
    and "xi = (if draws g (pos g) < p0 / (p0 + p1) then 0 else 1)"
  shows "pos g' = pos g + 1
       \<and> (p0 + p1 > 0 \<longrightarrow>
            weight w' = weight w * (p0 + p1) * exp eshift
          \<and> G w' = G (update_greens_function P w i xi)
          \<and> P' = P\<lparr>BV := ((BV P)[0 := (BV P ! 0)[i := auxf P ! xi ! 0]])
                             [1 := (((BV P)[0 := (BV P ! 0)[i := auxf P ! xi ! 0]]) ! 1)
                                     [i := auxf P ! xi ! 1]]\<rparr>)
       \<and> (\<not> p0 + p1 > 0 \<longrightarrow> w' = w\<lparr>weight := 0\<rparr> \<and> P' = P)
       \<and> (\<forall>sites w'' P'' g''.
             constrained_sites eshift sites (w', P', g') = (w'', P'', g'')
             \<longrightarrow> pos g'' = pos g' + length sites \<and> (weight w' = 0 \<longrightarrow> weight w'' = 0))"
proof (intro conjI impI allI)
  show "pos g' = pos g + 1" using assms(1) by (rule constrained_site_pos)
next
  assume n: "p0 + p1 > 0"
  have e: "(w', P', g') =
     (let w1 = w\<lparr>weight := weight w * (p0 + p1) * exp eshift\<rparr>;
          w2 = update_greens_function P w1 i xi;
          BV1 = (BV P)[0 := (BV P ! 0)[i := auxf P ! xi ! 0]];
          BV2 = BV1[1 := (BV1 ! 1)[i := auxf P ! xi ! 1]]
      in (w2, P\<lparr>BV := BV2\<rparr>, g\<lparr>pos := pos g + 1\<rparr>))"
    using assms n by (simp add: constrained_site_def Let_def random_def)
  show "weight w' = weight w * (p0 + p1) * exp eshift"
    using e by (simp add: Let_def update_greens_function_def)
  show "G w' = G (update_greens_function P w i xi)"
    using e by (simp add: Let_def update_greens_function_def)
  show "P' = P\<lparr>BV := ((BV P)[0 := (BV P ! 0)[i := auxf P ! xi ! 0]])
                             [1 := (((BV P)[0 := (BV P ! 0)[i := auxf P ! xi ! 0]]) ! 1)
                                     [i := auxf P ! xi ! 1]]\<rparr>"
    using e by (simp add: Let_def)
next
  assume n: "\<not> p0 + p1 > 0"
  then show "w' = w\<lparr>weight := 0\<rparr>" "P' = P"
    using assms by (simp_all add: constrained_site_def Let_def random_def)
next
  fix sites w'' P'' g''
  assume r: "constrained_sites eshift sites (w', P', g') = (w'', P'', g'')"
  from constrained_sites_rest [OF r] show "pos g'' = pos g' + length sites" by simp
  assume "weight w' = 0"
  with constrained_sites_rest [OF r] show "weight w'' = 0" by simp
qed

theorem constrained_site_rule_witness:
  "constrained_site 1 1 (w_ex, P_ex, rng_half)
     = (w_ex\<lparr>weight := exp 1, G := [[[3, 2], [0, 0]], [[3, 0], [0, 0]]]\<rparr>,
        P_ex\<lparr>BV := [[0, 1 / 2], [0, 2]]\<rparr>, rng_half\<lparr>pos := 1\<rparr>)
   \<and> max (Re (fst (calculate_overlap_ratio P_ex w_ex 1))) 0 = 1 / 2
   \<and> max (Re (snd (calculate_overlap_ratio P_ex w_ex 1))) 0 = 1 / 2
   \<and> weight (w_ex\<lparr>weight := exp 1, G := [[[3, 2], [0, 0]], [[3, 0], [0, 0]]]\<rparr>)
       = weight w_ex * (1 / 2 + 1 / 2) * exp 1
   \<and> constrained_site 0 0 (w_ex, P_ex, rng_half) = (w_ex\<lparr>weight := 0\<rparr>, P_ex, rng_half\<lparr>pos := 1\<rparr>)
   \<and> max (Re (fst (calculate_overlap_ratio P_ex w_ex 0))) 0 = 0
   \<and> max (Re (snd (calculate_overlap_ratio P_ex w_ex 0))) 0 = 0"
proof -
  have a: "constrained_site 1 1 (w_ex, P_ex, rng_half)
     = (w_ex\<lparr>weight := exp 1, G := [[[3, 2], [0, 0]], [[3, 0], [0, 0]]]\<rparr>,
        P_ex\<lparr>BV := [[0, 1 / 2], [0, 2]]\<rparr>, rng_half\<lparr>pos := 1\<rparr>)"
    by (simp add: constrained_site_def calculate_overlap_ratio_def P_ex_def w_ex_def random_def
          rng_half_def Let_def update_greens_function_def update_block_def col_def outer_def
          mat_sub_def mat_sdiv_def mat_scale_def)
  have p: "1 / 2 = max (Re (fst (calculate_overlap_ratio P_ex w_ex 1))) 0"
    "1 / 2 = max (Re (snd (calculate_overlap_ratio P_ex w_ex 1))) 0"
    by (simp_all add: calculate_overlap_ratio_def P_ex_def w_ex_def Let_def)
  have x: "(1::nat) = (if draws rng_half (pos rng_half) < (1 / 2) / (1 / 2 + 1 / 2) then 0 else 1)"
    by (simp add: rng_half_def)
  from constrained_site_rule [OF a p x]
  have w: "weight (w_ex\<lparr>weight := exp 1, G := [[[3, 2], [0, 0]], [[3, 0], [0, 0]]]\<rparr>)
       = weight w_ex * (1 / 2 + 1 / 2) * exp 1"
    by simp
  have b: "constrained_site 0 0 (w_ex, P_ex, rng_half)
             = (w_ex\<lparr>weight := 0\<rparr>, P_ex, rng_half\<lparr>pos := 1\<rparr>)"
    by (simp add: constrained_site_def calculate_overlap_ratio_def P_ex_def w_ex_def random_def
          rng_half_def Let_def)
  have q: "max (Re (fst (calculate_overlap_ratio P_ex w_ex 0))) 0 = 0"
    "max (Re (snd (calculate_overlap_ratio P_ex w_ex 0))) 0 = 0"
    by (simp_all add: calculate_overlap_ratio_def P_ex_def w_ex_def Let_def)
  from a p w b q show ?thesis by simp
qed

text \<open>
  A sweep over two sites whose first site has both ratios negative: the weight is 0 after
  site 0, and site 1 is processed all the same, with its draw, its field, and its update of
  the Green's function and of \<open>BV\<close>. With \<open>eshift = 1\<close> and clipped ratios summing to 1
  the weight is multiplied by \<open>exp 1\<close>, not by 1.
\<close>

theorem constrained_sweep_continues_counterexample:
  "constrained_site 0 0 (w_ex, P_ex, rng_half) = (w_ex\<lparr>weight := 0\<rparr>, P_ex, rng_half\<lparr>pos := 1\<rparr>)
   \<and> constrained_sites 0 [0, 1] (w_ex, P_ex, rng_half)
       = (w_ex\<lparr>weight := 0, G := [[[3, 2], [0, 0]], [[3, 0], [0, 0]]]\<rparr>,
          P_ex\<lparr>BV := [[0, 1 / 2], [0, 2]]\<rparr>, rng_half\<lparr>pos := 2\<rparr>)
   \<and> constrained_sites 0 [0, 1] (w_ex, P_ex, rng_half) \<noteq> constrained_site 0 0 (w_ex, P_ex, rng_half)
   \<and> weight (fst (constrained_site 1 1 (w_ex, P_ex, rng_half))) = weight w_ex * exp 1
   \<and> max (Re (fst (calculate_overlap_ratio P_ex w_ex 1))) 0
       + max (Re (snd (calculate_overlap_ratio P_ex w_ex 1))) 0 = 1
   \<and> weight w_ex * exp 1 \<noteq> weight w_ex * 1"
proof -
  have a: "constrained_site 0 0 (w_ex, P_ex, rng_half)
             = (w_ex\<lparr>weight := 0\<rparr>, P_ex, rng_half\<lparr>pos := 1\<rparr>)"
    by (simp add: constrained_site_def calculate_overlap_ratio_def P_ex_def w_ex_def random_def
          rng_half_def Let_def)
  have b: "constrained_site 0 1 (w_ex\<lparr>weight := 0\<rparr>, P_ex, rng_half\<lparr>pos := 1\<rparr>)
             = (w_ex\<lparr>weight := 0, G := [[[3, 2], [0, 0]], [[3, 0], [0, 0]]]\<rparr>,
                P_ex\<lparr>BV := [[0, 1 / 2], [0, 2]]\<rparr>, rng_half\<lparr>pos := 2\<rparr>)"
    by (simp add: constrained_site_def calculate_overlap_ratio_def P_ex_def w_ex_def random_def
          rng_half_def Let_def update_greens_function_def update_block_def col_def outer_def
          mat_sub_def mat_sdiv_def mat_scale_def)
  have c: "constrained_sites 0 [0, 1] (w_ex, P_ex, rng_half)
       = (w_ex\<lparr>weight := 0, G := [[[3, 2], [0, 0]], [[3, 0], [0, 0]]]\<rparr>,
          P_ex\<lparr>BV := [[0, 1 / 2], [0, 2]]\<rparr>, rng_half\<lparr>pos := 2\<rparr>)"
    by (simp only: constrained_sites.simps a b)
  have d: "constrained_sites 0 [0, 1] (w_ex, P_ex, rng_half)
             \<noteq> constrained_site 0 0 (w_ex, P_ex, rng_half)"
    unfolding a c by (simp add: rng_half_def)
  have e: "weight (fst (constrained_site 1 1 (w_ex, P_ex, rng_half))) = weight w_ex * exp 1"
    by (simp add: constrained_site_def calculate_overlap_ratio_def P_ex_def w_ex_def random_def
          rng_half_def Let_def update_greens_function_def)
  have f: "max (Re (fst (calculate_overlap_ratio P_ex w_ex 1))) 0
       + max (Re (snd (calculate_overlap_ratio P_ex w_ex 1))) 0 = 1"
    by (simp add: calculate_overlap_ratio_def P_ex_def w_ex_def Let_def)
  have g: "weight w_ex * exp 1 \<noteq> weight w_ex * 1" by (simp add: w_ex_def)
  from a c d e f g show ?thesis by blast
qed

section \<open>The Sherman-Morrison update is the inverse\<close>

lemma sm_inner:
  fixes b :: "nat \<Rightarrow> nat \<Rightarrow> 'a::field"
  shows "(\<Sum>m<n. (\<Sum>l<n. b i l * (u l * v m)) * b m k)
           = (\<Sum>l<n. b i l * u l) * (\<Sum>m<n. v m * b m k)"
proof -
  have "\<And>m. (\<Sum>l<n. b i l * (u l * v m)) = (\<Sum>l<n. b i l * u l) * v m"
    by (simp add: sum_distrib_right mult.assoc)
  then have "(\<Sum>m<n. (\<Sum>l<n. b i l * (u l * v m)) * b m k)
               = (\<Sum>m<n. (\<Sum>l<n. b i l * u l) * (v m * b m k))"
    by (simp add: mult.assoc)
  also have "\<dots> = (\<Sum>l<n. b i l * u l) * (\<Sum>m<n. v m * b m k)"
    by (simp add: sum_distrib_left)
  finally show ?thesis .
qed

lemma sum_delta_row:
  fixes f :: "nat \<Rightarrow> 'a::field"
  assumes "j < n"
  shows "(\<Sum>m<n. f m * (if m = j then 1 else 0)) = f j"
proof -
  have "(\<Sum>m<n. f m * (if m = j then 1 else 0)) = (\<Sum>m<n. if m = j then f m else 0)"
    by (rule sum.cong) simp_all
  also have "\<dots> = f j" using assms by simp
  finally show ?thesis .
qed

lemma sum_delta_col:
  fixes f :: "nat \<Rightarrow> 'a::field"
  assumes "i < n"
  shows "(\<Sum>m<n. (if i = m then 1 else 0) * f m) = f i"
proof -
  have "(\<Sum>m<n. (if i = m then 1 else 0) * f m) = (\<Sum>m<n. if m = i then f m else 0)"
    by (rule sum.cong) auto
  also have "\<dots> = f i" using assms by simp
  finally show ?thesis .
qed

lemma sm_left:
  fixes a b :: "nat \<Rightarrow> nat \<Rightarrow> 'a::field"
  assumes BA: "\<And>i j. i < n \<Longrightarrow> j < n \<Longrightarrow> (\<Sum>k<n. b i k * a k j) = (if i = j then 1 else 0)"
    and d: "d = 1 + (\<Sum>j<n. (\<Sum>k<n. v k * b k j) * u j)" and d0: "d \<noteq> 0"
    and i: "i < n" and j: "j < n"
  shows "(\<Sum>k<n. (b i k - (\<Sum>m<n. (\<Sum>l<n. b i l * (u l * v m)) * b m k) / d) * (a k j + u k * v j))
           = (if i = j then 1 else 0)"
proof -
  define w where "w = (\<Sum>l<n. b i l * u l)"
  define z where "z = (\<lambda>k. \<Sum>m<n. v m * b m k)"
  have za: "(\<Sum>k<n. z k * a k j) = v j"
  proof -
    have "(\<Sum>k<n. z k * a k j) = (\<Sum>k<n. \<Sum>m<n. v m * (b m k * a k j))"
      by (simp add: z_def sum_distrib_right mult.assoc)
    also have "\<dots> = (\<Sum>m<n. \<Sum>k<n. v m * (b m k * a k j))" by (rule sum.swap)
    also have "\<dots> = (\<Sum>m<n. v m * (\<Sum>k<n. b m k * a k j))" by (simp add: sum_distrib_left)
    also have "\<dots> = (\<Sum>m<n. v m * (if m = j then 1 else 0))"
      by (rule sum.cong) (simp_all add: BA j)
    also have "\<dots> = v j" by (rule sum_delta_row [OF j])
    finally show ?thesis .
  qed
  have zu: "(\<Sum>k<n. z k * u k) = d - 1" by (simp add: d z_def)
  have "(\<Sum>k<n. (b i k - (\<Sum>m<n. (\<Sum>l<n. b i l * (u l * v m)) * b m k) / d) * (a k j + u k * v j))
      = (\<Sum>k<n. (b i k - w * z k / d) * (a k j + u k * v j))"
    by (simp add: sm_inner w_def z_def)
  also have "\<dots> = (\<Sum>k<n. b i k * a k j + (b i k * u k) * v j
                        - (w / d) * (z k * a k j) - ((w / d) * v j) * (z k * u k))"
    by (rule sum.cong) (simp_all add: algebra_simps)
  also have "\<dots> = (\<Sum>k<n. b i k * a k j) + (\<Sum>k<n. b i k * u k) * v j
                        - (w / d) * (\<Sum>k<n. z k * a k j) - ((w / d) * v j) * (\<Sum>k<n. z k * u k)"
    by (simp add: sum_subtractf sum.distrib sum_distrib_left sum_distrib_right)
  also have "\<dots> = (if i = j then 1 else 0) + w * v j - (w / d) * v j - ((w / d) * v j) * (d - 1)"
    by (simp add: BA i j za zu w_def)
  also have "\<dots> = (if i = j then 1 else 0)"
    using d0 by (simp add: field_simps)
  finally show ?thesis .
qed

lemma sm_right:
  fixes a b :: "nat \<Rightarrow> nat \<Rightarrow> 'a::field"
  assumes AB: "\<And>i j. i < n \<Longrightarrow> j < n \<Longrightarrow> (\<Sum>k<n. a i k * b k j) = (if i = j then 1 else 0)"
    and d: "d = 1 + (\<Sum>j<n. (\<Sum>k<n. v k * b k j) * u j)" and d0: "d \<noteq> 0"
    and i: "i < n" and j: "j < n"
  shows "(\<Sum>k<n. (a i k + u i * v k) * (b k j - (\<Sum>m<n. (\<Sum>l<n. b k l * (u l * v m)) * b m j) / d))
           = (if i = j then 1 else 0)"
proof -
  define w where "w = (\<lambda>k. \<Sum>l<n. b k l * u l)"
  define z where "z = (\<Sum>m<n. v m * b m j)"
  have aw: "(\<Sum>k<n. a i k * w k) = u i"
  proof -
    have "(\<Sum>k<n. a i k * w k) = (\<Sum>k<n. \<Sum>l<n. (a i k * b k l) * u l)"
      by (simp add: w_def sum_distrib_left mult.assoc)
    also have "\<dots> = (\<Sum>l<n. \<Sum>k<n. (a i k * b k l) * u l)" by (rule sum.swap)
    also have "\<dots> = (\<Sum>l<n. (\<Sum>k<n. a i k * b k l) * u l)" by (simp add: sum_distrib_right)
    also have "\<dots> = (\<Sum>l<n. (if i = l then 1 else 0) * u l)"
      by (rule sum.cong) (simp_all add: AB i)
    also have "\<dots> = u i" by (rule sum_delta_col [OF i])
    finally show ?thesis .
  qed
  have vw: "(\<Sum>k<n. v k * w k) = d - 1"
  proof -
    have "(\<Sum>k<n. v k * w k) = (\<Sum>k<n. \<Sum>l<n. (v k * b k l) * u l)"
      by (simp add: w_def sum_distrib_left mult.assoc)
    also have "\<dots> = (\<Sum>l<n. \<Sum>k<n. (v k * b k l) * u l)" by (rule sum.swap)
    also have "\<dots> = (\<Sum>l<n. (\<Sum>k<n. v k * b k l) * u l)" by (simp add: sum_distrib_right)
    also have "\<dots> = d - 1" by (simp add: d)
    finally show ?thesis .
  qed
  have "(\<Sum>k<n. (a i k + u i * v k) * (b k j - (\<Sum>m<n. (\<Sum>l<n. b k l * (u l * v m)) * b m j) / d))
      = (\<Sum>k<n. (a i k + u i * v k) * (b k j - w k * z / d))"
    by (simp add: sm_inner w_def z_def)
  also have "\<dots> = (\<Sum>k<n. a i k * b k j + u i * (v k * b k j)
                        - (z / d) * (a i k * w k) - ((z / d) * u i) * (v k * w k))"
    by (rule sum.cong) (simp_all add: algebra_simps)
  also have "\<dots> = (\<Sum>k<n. a i k * b k j) + u i * (\<Sum>k<n. v k * b k j)
                        - (z / d) * (\<Sum>k<n. a i k * w k) - ((z / d) * u i) * (\<Sum>k<n. v k * w k)"
    by (simp add: sum_subtractf sum.distrib sum_distrib_left)
  also have "\<dots> = (if i = j then 1 else 0) + u i * z - (z / d) * u i - ((z / d) * u i) * (d - 1)"
    by (simp add: AB i j aw vw z_def)
  also have "\<dots> = (if i = j then 1 else 0)"
    using d0 by (simp add: field_simps)
  finally show ?thesis .
qed


lemma vdot_nth:
  "length u = length v \<Longrightarrow> vdot u v = (\<Sum>k<length u. u ! k * v ! k)"
proof (induction u v rule: list_induct2)
  case Nil
  show ?case by (simp add: vdot_def)
next
  case (Cons x xs y ys)
  have "(\<Sum>k<Suc (length xs). (x # xs) ! k * (y # ys) ! k)
          = x * y + (\<Sum>k<length xs. xs ! k * ys ! k)"
    by (subst sum.lessThan_Suc_shift) simp
  then show ?case using Cons.IH by (simp add: vdot_def)
qed

lemma is_mat_nth: "is_mat n m A \<Longrightarrow> i < n \<Longrightarrow> length (A ! i) = m"
  by (simp add: is_mat_def)

lemma ncols_is_mat: "is_mat n m A \<Longrightarrow> 0 < n \<Longrightarrow> ncols A = m"
  by (cases A) (simp_all add: is_mat_def ncols_def)

lemma ncols_square: "is_mat n n A \<Longrightarrow> ncols A = n"
  by (cases A) (simp_all add: is_mat_def ncols_def)

lemma col_nth: "k < length A \<Longrightarrow> col A j ! k = A ! k ! j"
  by (simp add: col_def)

lemma length_col [simp]: "length (col A j) = length A"
  by (simp add: col_def)

lemma mat_eqI:
  assumes "is_mat n m A" and "is_mat n m B"
    and "\<And>i j. i < n \<Longrightarrow> j < m \<Longrightarrow> A ! i ! j = B ! i ! j"
  shows "A = B"
proof (rule nth_equalityI)
  show "length A = length B" using assms(1,2) by (simp add: is_mat_def)
next
  fix i assume "i < length A"
  then have i: "i < n" using assms(1) by (simp add: is_mat_def)
  show "A ! i = B ! i"
  proof (rule nth_equalityI)
    show "length (A ! i) = length (B ! i)"
      using is_mat_nth [OF assms(1) i] is_mat_nth [OF assms(2) i] by simp
  next
    fix j assume "j < length (A ! i)"
    then have "j < m" using is_mat_nth [OF assms(1) i] by simp
    then show "A ! i ! j = B ! i ! j" using assms(3) i by simp
  qed
qed

lemma mat_mul_general:
  assumes "is_mat n m A" and "is_mat m p B" and "ncols B = p"
  shows "is_mat n p (mat_mul A B)"
    and "i < n \<Longrightarrow> j < p \<Longrightarrow> mat_mul A B ! i ! j = (\<Sum>k<m. A ! i ! k * B ! k ! j)"
proof -
  show "is_mat n p (mat_mul A B)"
    using assms by (auto simp: is_mat_def mat_mul_def)
next
  assume i: "i < n" and j: "j < p"
  have la: "length (A ! i) = m" using is_mat_nth [OF assms(1) i] .
  have lb: "length B = m" using assms(2) by (simp add: is_mat_def)
  have "mat_mul A B ! i ! j = vdot (A ! i) (col B j)"
    using i j assms by (simp add: mat_mul_def is_mat_def)
  also have "\<dots> = (\<Sum>k<m. A ! i ! k * col B j ! k)"
    using vdot_nth [of "A ! i" "col B j"] la lb by simp
  also have "\<dots> = (\<Sum>k<m. A ! i ! k * B ! k ! j)"
    by (rule sum.cong) (simp_all add: col_nth lb)
  finally show "mat_mul A B ! i ! j = (\<Sum>k<m. A ! i ! k * B ! k ! j)" .
qed

lemma mat_mul_square:
  assumes "is_mat n n A" and "is_mat n n B"
  shows "is_mat n n (mat_mul A B)"
    and "i < n \<Longrightarrow> j < n \<Longrightarrow> mat_mul A B ! i ! j = (\<Sum>k<n. A ! i ! k * B ! k ! j)"
  using mat_mul_general [OF assms ncols_square [OF assms(2)]] by simp_all

lemma outer_mat:
  assumes "length u = n" and "length v = m"
  shows "is_mat n m (outer u v)"
    and "i < n \<Longrightarrow> j < m \<Longrightarrow> outer u v ! i ! j = u ! i * v ! j"
  using assms by (auto simp: is_mat_def outer_def)

lemma mat_sub_mat:
  assumes "is_mat n m A" and "is_mat n m B"
  shows "is_mat n m (mat_sub A B)"
    and "i < n \<Longrightarrow> j < m \<Longrightarrow> mat_sub A B ! i ! j = A ! i ! j - B ! i ! j"
proof -
  have "length (mat_sub A B) = n" using assms by (simp add: is_mat_def mat_sub_def)
  moreover have "\<forall>row\<in>set (mat_sub A B). length row = m"
  proof
    fix row assume "row \<in> set (mat_sub A B)"
    then obtain r s where rs: "(r, s) \<in> set (zip A B)"
      and row: "row = map (\<lambda>(a, b). a - b) (zip r s)"
      by (auto simp: mat_sub_def)
    have "r \<in> set A" "s \<in> set B" using rs by (auto dest: set_zip_leftD set_zip_rightD)
    then show "length row = m" using assms row by (simp add: is_mat_def)
  qed
  ultimately show "is_mat n m (mat_sub A B)" by (simp add: is_mat_def)
next
  assume i: "i < n" and j: "j < m"
  then show "mat_sub A B ! i ! j = A ! i ! j - B ! i ! j"
    using assms by (simp add: is_mat_def mat_sub_def)
qed


lemma mat_add_mat:
  assumes "is_mat n m A" and "is_mat n m B"
  shows "is_mat n m (mat_add A B)"
    and "i < n \<Longrightarrow> j < m \<Longrightarrow> mat_add A B ! i ! j = A ! i ! j + B ! i ! j"
proof -
  have "length (mat_add A B) = n" using assms by (simp add: is_mat_def mat_add_def)
  moreover have "\<forall>row\<in>set (mat_add A B). length row = m"
  proof
    fix row assume "row \<in> set (mat_add A B)"
    then obtain r s where rs: "(r, s) \<in> set (zip A B)"
      and row: "row = map (\<lambda>(a, b). a + b) (zip r s)"
      by (auto simp: mat_add_def)
    have "r \<in> set A" "s \<in> set B" using rs by (auto dest: set_zip_leftD set_zip_rightD)
    then show "length row = m" using assms row by (simp add: is_mat_def)
  qed
  ultimately show "is_mat n m (mat_add A B)" by (simp add: is_mat_def)
next
  assume i: "i < n" and j: "j < m"
  then show "mat_add A B ! i ! j = A ! i ! j + B ! i ! j"
    using assms by (simp add: is_mat_def mat_add_def)
qed

lemma mat_sdiv_mat:
  assumes "is_mat n m A"
  shows "is_mat n m (mat_sdiv A c)"
    and "i < n \<Longrightarrow> j < m \<Longrightarrow> mat_sdiv A c ! i ! j = A ! i ! j / c"
  using assms by (auto simp: is_mat_def mat_sdiv_def)

lemma mat_id_mat:
  shows "is_mat n n (mat_id n)"
    and "i < n \<Longrightarrow> j < n \<Longrightarrow> mat_id n ! i ! j = (if i = j then 1 else 0)"
  by (auto simp: is_mat_def mat_id_def)

lemma vec_mat_nth:
  assumes "is_mat n n B" and "length v = n"
  shows "length (vec_mat v B) = n"
    and "j < n \<Longrightarrow> vec_mat v B ! j = (\<Sum>k<n. v ! k * B ! k ! j)"
proof -
  have nc: "ncols B = n" using ncols_square [OF assms(1)] .
  show "length (vec_mat v B) = n" by (simp add: vec_mat_def nc)
  assume j: "j < n"
  have lb: "length B = n" using assms(1) by (simp add: is_mat_def)
  have "vec_mat v B ! j = vdot v (col B j)" using j by (simp add: vec_mat_def nc)
  also have "\<dots> = (\<Sum>k<n. v ! k * col B j ! k)"
    using vdot_nth [of v "col B j"] assms(2) lb by simp
  also have "\<dots> = (\<Sum>k<n. v ! k * B ! k ! j)"
    by (rule sum.cong) (simp_all add: col_nth lb)
  finally show "vec_mat v B ! j = (\<Sum>k<n. v ! k * B ! k ! j)" .
qed

lemma is_inverse_sums:
  assumes "is_inverse n A B" and "i < n" and "j < n"
  shows "(\<Sum>k<n. A ! i ! k * B ! k ! j) = (if i = j then 1 else 0)"
    and "(\<Sum>k<n. B ! i ! k * A ! k ! j) = (if i = j then 1 else 0)"
proof -
  have a: "is_mat n n A" and b: "is_mat n n B"
    and ab: "mat_mul A B = mat_id n" and ba: "mat_mul B A = mat_id n"
    using assms(1) by (simp_all add: is_inverse_def)
  have "(\<Sum>k<n. A ! i ! k * B ! k ! j) = mat_mul A B ! i ! j"
    by (rule mat_mul_square(2) [OF a b assms(2,3), symmetric])
  also have "\<dots> = mat_id n ! i ! j" by (simp only: ab)
  also have "\<dots> = (if i = j then 1 else 0)" by (rule mat_id_mat(2) [OF assms(2,3)])
  finally show "(\<Sum>k<n. A ! i ! k * B ! k ! j) = (if i = j then 1 else 0)" .
  have "(\<Sum>k<n. B ! i ! k * A ! k ! j) = mat_mul B A ! i ! j"
    by (rule mat_mul_square(2) [OF b a assms(2,3), symmetric])
  also have "\<dots> = mat_id n ! i ! j" by (simp only: ba)
  also have "\<dots> = (if i = j then 1 else 0)" by (rule mat_id_mat(2) [OF assms(2,3)])
  finally show "(\<Sum>k<n. B ! i ! k * A ! k ! j) = (if i = j then 1 else 0)" .
qed

lemma sherman_morrison_entries:
  assumes b: "is_mat n n B" and u: "length u = n" and v: "length vt = n"
  shows "is_mat n n (sherman_morrison B u vt)"
    and "1 + vdot (vec_mat vt B) u = 1 + (\<Sum>j<n. (\<Sum>k<n. vt ! k * B ! k ! j) * u ! j)"
    and "i < n \<Longrightarrow> j < n \<Longrightarrow>
         sherman_morrison B u vt ! i ! j
           = B ! i ! j - (\<Sum>m<n. (\<Sum>l<n. B ! i ! l * (u ! l * vt ! m)) * B ! m ! j)
                          / (1 + vdot (vec_mat vt B) u)"
proof -
  let ?d = "1 + vdot (vec_mat vt B) u"
  have o: "is_mat n n (outer u vt)" using outer_mat(1) [OF u v] .
  have bo: "is_mat n n (mat_mul B (outer u vt))" using mat_mul_square(1) [OF b o] .
  have bob: "is_mat n n (mat_mul (mat_mul B (outer u vt)) B)" using mat_mul_square(1) [OF bo b] .
  have q: "is_mat n n (mat_sdiv (mat_mul (mat_mul B (outer u vt)) B) ?d)"
    using mat_sdiv_mat(1) [OF bob] .
  show "is_mat n n (sherman_morrison B u vt)"
    unfolding sherman_morrison_def using mat_sub_mat(1) [OF b q] .
  have "vdot (vec_mat vt B) u = (\<Sum>j<n. vec_mat vt B ! j * u ! j)"
    using vdot_nth [of "vec_mat vt B" u] vec_mat_nth(1) [OF b v] u by simp
  also have "\<dots> = (\<Sum>j<n. (\<Sum>k<n. vt ! k * B ! k ! j) * u ! j)"
    by (rule sum.cong) (simp_all add: vec_mat_nth(2) [OF b v])
  finally show "1 + vdot (vec_mat vt B) u = 1 + (\<Sum>j<n. (\<Sum>k<n. vt ! k * B ! k ! j) * u ! j)"
    by simp
  assume i: "i < n" and j: "j < n"
  have e1: "\<And>m. m < n \<Longrightarrow> mat_mul B (outer u vt) ! i ! m = (\<Sum>l<n. B ! i ! l * (u ! l * vt ! m))"
  proof -
    fix m assume m: "m < n"
    have "mat_mul B (outer u vt) ! i ! m = (\<Sum>l<n. B ! i ! l * outer u vt ! l ! m)"
      using mat_mul_square(2) [OF b o i m] .
    also have "\<dots> = (\<Sum>l<n. B ! i ! l * (u ! l * vt ! m))"
      by (rule sum.cong) (simp_all add: outer_mat(2) [OF u v] m)
    finally show "mat_mul B (outer u vt) ! i ! m = (\<Sum>l<n. B ! i ! l * (u ! l * vt ! m))" .
  qed
  have e2: "mat_mul (mat_mul B (outer u vt)) B ! i ! j
              = (\<Sum>m<n. (\<Sum>l<n. B ! i ! l * (u ! l * vt ! m)) * B ! m ! j)"
  proof -
    have "mat_mul (mat_mul B (outer u vt)) B ! i ! j
            = (\<Sum>m<n. mat_mul B (outer u vt) ! i ! m * B ! m ! j)"
      using mat_mul_square(2) [OF bo b i j] .
    also have "\<dots> = (\<Sum>m<n. (\<Sum>l<n. B ! i ! l * (u ! l * vt ! m)) * B ! m ! j)"
      by (rule sum.cong) (simp_all add: e1)
    finally show ?thesis .
  qed
  show "sherman_morrison B u vt ! i ! j
           = B ! i ! j - (\<Sum>m<n. (\<Sum>l<n. B ! i ! l * (u ! l * vt ! m)) * B ! m ! j) / ?d"
    unfolding sherman_morrison_def
    using mat_sub_mat(2) [OF b q i j] mat_sdiv_mat(2) [OF bob i j, of ?d] e2 by simp
qed

lemma sherman_morrison_inverse:
  fixes A :: "'a::field list list"
  assumes inv: "is_inverse n A Ainv" and u: "length u = n" and v: "length vt = n"
    and d0: "1 + vdot (vec_mat vt Ainv) u \<noteq> 0"
  shows "is_inverse n (mat_add A (outer u vt)) (sherman_morrison Ainv u vt)"
proof -
  let ?C = "mat_add A (outer u vt)"
  let ?S = "sherman_morrison Ainv u vt"
  let ?d = "1 + vdot (vec_mat vt Ainv) u"
  have a: "is_mat n n A" and b: "is_mat n n Ainv" using inv by (simp_all add: is_inverse_def)
  have o: "is_mat n n (outer u vt)" using outer_mat(1) [OF u v] .
  have c: "is_mat n n ?C" using mat_add_mat(1) [OF a o] .
  have s: "is_mat n n ?S" using sherman_morrison_entries(1) [OF b u v] .
  have dd: "?d = 1 + (\<Sum>j<n. (\<Sum>k<n. vt ! k * Ainv ! k ! j) * u ! j)"
    using sherman_morrison_entries(2) [OF b u v] .
  have ce: "\<And>i j. i < n \<Longrightarrow> j < n \<Longrightarrow> ?C ! i ! j = A ! i ! j + u ! i * vt ! j"
    using mat_add_mat(2) [OF a o] outer_mat(2) [OF u v] by simp
  have se: "\<And>i j. i < n \<Longrightarrow> j < n \<Longrightarrow> ?S ! i ! j
      = Ainv ! i ! j - (\<Sum>m<n. (\<Sum>l<n. Ainv ! i ! l * (u ! l * vt ! m)) * Ainv ! m ! j) / ?d"
    using sherman_morrison_entries(3) [OF b u v] .
  have cs: "mat_mul ?C ?S = mat_id n"
  proof (rule mat_eqI [OF mat_mul_square(1) [OF c s] mat_id_mat(1)])
    fix i j assume i: "i < n" and j: "j < n"
    have "mat_mul ?C ?S ! i ! j = (\<Sum>k<n. ?C ! i ! k * ?S ! k ! j)"
      using mat_mul_square(2) [OF c s i j] .
    also have "\<dots> = (\<Sum>k<n. (A ! i ! k + u ! i * vt ! k)
        * (Ainv ! k ! j - (\<Sum>m<n. (\<Sum>l<n. Ainv ! k ! l * (u ! l * vt ! m)) * Ainv ! m ! j) / ?d))"
      by (rule sum.cong) (simp_all add: ce se i j)
    also have "\<dots> = (if i = j then 1 else 0)"
      by (rule sm_right [where a = "\<lambda>i k. A ! i ! k" and b = "\<lambda>k j. Ainv ! k ! j"
                           and u = "\<lambda>i. u ! i" and v = "\<lambda>k. vt ! k",
                         OF is_inverse_sums(1) [OF inv] dd d0 i j])
    also have "\<dots> = mat_id n ! i ! j" by (rule mat_id_mat(2) [OF i j, symmetric])
    finally show "mat_mul ?C ?S ! i ! j = mat_id n ! i ! j" .
  qed
  have sc: "mat_mul ?S ?C = mat_id n"
  proof (rule mat_eqI [OF mat_mul_square(1) [OF s c] mat_id_mat(1)])
    fix i j assume i: "i < n" and j: "j < n"
    have "mat_mul ?S ?C ! i ! j = (\<Sum>k<n. ?S ! i ! k * ?C ! k ! j)"
      using mat_mul_square(2) [OF s c i j] .
    also have "\<dots> = (\<Sum>k<n.
          (Ainv ! i ! k - (\<Sum>m<n. (\<Sum>l<n. Ainv ! i ! l * (u ! l * vt ! m)) * Ainv ! m ! k) / ?d)
        * (A ! k ! j + u ! k * vt ! j))"
      by (rule sum.cong) (simp_all add: ce se i j)
    also have "\<dots> = (if i = j then 1 else 0)"
      by (rule sm_left [where a = "\<lambda>i k. A ! i ! k" and b = "\<lambda>k j. Ainv ! k ! j"
                           and u = "\<lambda>i. u ! i" and v = "\<lambda>k. vt ! k",
                         OF is_inverse_sums(2) [OF inv] dd d0 i j])
    also have "\<dots> = mat_id n ! i ! j" by (rule mat_id_mat(2) [OF i j, symmetric])
    finally show "mat_mul ?S ?C ! i ! j = mat_id n ! i ! j" .
  qed
  show ?thesis using c s cs sc by (simp add: is_inverse_def)
qed


lemma mat_T_mat:
  assumes "is_mat n m A" and "0 < n"
  shows "is_mat m n (mat_T A)"
    and "a < m \<Longrightarrow> k < n \<Longrightarrow> mat_T A ! a ! k = A ! k ! a"
proof -
  have nc: "ncols A = m" using ncols_is_mat [OF assms] .
  have la: "length A = n" using assms(1) by (simp add: is_mat_def)
  show "is_mat m n (mat_T A)" by (auto simp: is_mat_def mat_T_def nc la)
  assume "a < m" and "k < n"
  then show "mat_T A ! a ! k = A ! k ! a" by (simp add: mat_T_def nc col_nth la)
qed

lemma mat_conj_mat:
  assumes "is_mat n m A"
  shows "is_mat n m (mat_conj A)"
    and "i < n \<Longrightarrow> j < m \<Longrightarrow> mat_conj A ! i ! j = cnj (A ! i ! j)"
  using assms by (auto simp: is_mat_def mat_conj_def)

lemma take_cols_mat:
  assumes "is_mat n m A" and "p \<le> m"
  shows "is_mat n p (map (take p) A)"
    and "i < n \<Longrightarrow> j < p \<Longrightarrow> map (take p) A ! i ! j = A ! i ! j"
  using assms by (auto simp: is_mat_def)

lemma drop_cols_mat:
  assumes "is_mat n m A" and "p \<le> m"
  shows "is_mat n (m - p) (map (drop p) A)"
    and "i < n \<Longrightarrow> j < m - p \<Longrightarrow> map (drop p) A ! i ! j = A ! i ! (p + j)"
  using assms by (auto simp: is_mat_def)

lemma shift_site_mat:
  assumes "is_mat n m A" and "i < n" and "length vt = m"
  shows "is_mat n m (shift_site A i vt)"
    and "k < n \<Longrightarrow> j < m \<Longrightarrow>
         shift_site A i vt ! k ! j = A ! k ! j + (if k = i then vt ! j else 0)"
proof -
  have la: "length A = n" and li: "length (A ! i) = m"
    using assms by (simp_all add: is_mat_def)
  show "is_mat n m (shift_site A i vt)"
    using assms la li by (auto simp: is_mat_def shift_site_def dest!: set_update_subset_insert [THEN subsetD])
  assume "k < n" and "j < m"
  then show "shift_site A i vt ! k ! j = A ! k ! j + (if k = i then vt ! j else 0)"
    using assms la li by (simp add: shift_site_def nth_list_update)
qed

lemma sum_delta_scaled:
  fixes f :: "nat \<Rightarrow> 'a::field"
  assumes "j < n"
  shows "(\<Sum>m<n. f m * (if m = j then c else 0)) = f j * c"
proof -
  have "(\<Sum>m<n. f m * (if m = j then c else 0)) = (\<Sum>m<n. if m = j then f m * c else 0)"
    by (rule sum.cong) simp_all
  also have "\<dots> = f j * c" using assms by simp
  finally show ?thesis .
qed

lemma overlap_entries:
  assumes t: "is_mat nb m T" and p: "is_mat nb m ph" and nb: "0 < nb"
  shows "is_mat m m (mat_mul (mat_T (mat_conj T)) ph)"
    and "a < m \<Longrightarrow> b < m \<Longrightarrow>
         mat_mul (mat_T (mat_conj T)) ph ! a ! b = (\<Sum>k<nb. cnj (T ! k ! a) * ph ! k ! b)"
proof -
  have tc: "is_mat nb m (mat_conj T)" using mat_conj_mat(1) [OF t] .
  have tt: "is_mat m nb (mat_T (mat_conj T))" using mat_T_mat(1) [OF tc nb] .
  have nc: "ncols ph = m" using ncols_is_mat [OF p nb] .
  show "is_mat m m (mat_mul (mat_T (mat_conj T)) ph)" using mat_mul_general(1) [OF tt p nc] .
  assume a: "a < m" and b: "b < m"
  have "mat_mul (mat_T (mat_conj T)) ph ! a ! b
          = (\<Sum>k<nb. mat_T (mat_conj T) ! a ! k * ph ! k ! b)"
    using mat_mul_general(2) [OF tt p nc a b] .
  also have "\<dots> = (\<Sum>k<nb. cnj (T ! k ! a) * ph ! k ! b)"
    by (rule sum.cong) (simp_all add: mat_T_mat(2) [OF tc nb a] mat_conj_mat(2) [OF t] a)
  finally show "mat_mul (mat_T (mat_conj T)) ph ! a ! b = (\<Sum>k<nb. cnj (T ! k ! a) * ph ! k ! b)" .
qed

lemma overlap_rank_one:
  assumes t: "is_mat nb m T" and p: "is_mat nb m ph" and i: "i < nb" and v: "length vt = m"
  shows "mat_mul (mat_T (mat_conj T)) (shift_site ph i vt)
           = mat_add (mat_mul (mat_T (mat_conj T)) ph) (outer (map cnj (T ! i)) vt)"
proof -
  have nb: "0 < nb" using i by simp
  have p': "is_mat nb m (shift_site ph i vt)" using shift_site_mat(1) [OF p i v] .
  have lu: "length (map cnj (T ! i)) = m" using is_mat_nth [OF t i] by simp
  have o: "is_mat m m (outer (map cnj (T ! i)) vt)" using outer_mat(1) [OF lu v] .
  have l: "is_mat m m (mat_mul (mat_T (mat_conj T)) (shift_site ph i vt))"
    using overlap_entries(1) [OF t p' nb] .
  have r0: "is_mat m m (mat_mul (mat_T (mat_conj T)) ph)" using overlap_entries(1) [OF t p nb] .
  have r: "is_mat m m (mat_add (mat_mul (mat_T (mat_conj T)) ph) (outer (map cnj (T ! i)) vt))"
    using mat_add_mat(1) [OF r0 o] .
  show ?thesis
  proof (rule mat_eqI [OF l r])
    fix a b assume a: "a < m" and b: "b < m"
    have ta: "a < length (T ! i)" using is_mat_nth [OF t i] a by simp
    have "mat_mul (mat_T (mat_conj T)) (shift_site ph i vt) ! a ! b
            = (\<Sum>k<nb. cnj (T ! k ! a) * shift_site ph i vt ! k ! b)"
      using overlap_entries(2) [OF t p' nb a b] .
    also have "\<dots> = (\<Sum>k<nb. cnj (T ! k ! a) * ph ! k ! b
                              + cnj (T ! k ! a) * (if k = i then vt ! b else 0))"
      by (rule sum.cong) (simp_all add: shift_site_mat(2) [OF p i v] b distrib_left)
    also have "\<dots> = (\<Sum>k<nb. cnj (T ! k ! a) * ph ! k ! b)
                        + (\<Sum>k<nb. cnj (T ! k ! a) * (if k = i then vt ! b else 0))"
      by (rule sum.distrib)
    also have "\<dots> = (\<Sum>k<nb. cnj (T ! k ! a) * ph ! k ! b) + cnj (T ! i ! a) * vt ! b"
      by (simp only: sum_delta_scaled [OF i])
    also have "\<dots> = mat_mul (mat_T (mat_conj T)) ph ! a ! b + outer (map cnj (T ! i)) vt ! a ! b"
      using overlap_entries(2) [OF t p nb a b] outer_mat(2) [OF lu v a b] ta by simp
    also have "\<dots> = mat_add (mat_mul (mat_T (mat_conj T)) ph) (outer (map cnj (T ! i)) vt) ! a ! b"
      using mat_add_mat(2) [OF r0 o a b] by simp
    finally show "mat_mul (mat_T (mat_conj T)) (shift_site ph i vt) ! a ! b
       = mat_add (mat_mul (mat_T (mat_conj T)) ph) (outer (map cnj (T ! i)) vt) ! a ! b" .
  qed
qed

lemma shift_site_take:
  assumes "is_mat nb ne ph" and "i < nb" and "length vtup = p" and "p \<le> ne"
    and "length vtdown = ne - p"
  shows "map (take p) (shift_site ph i (vtup @ vtdown)) = shift_site (map (take p) ph) i vtup"
    and "map (drop p) (shift_site ph i (vtup @ vtdown)) = shift_site (map (drop p) ph) i vtdown"
proof -
  have la: "length ph = nb" and li: "length (ph ! i) = ne"
    using assms by (simp_all add: is_mat_def)
  have z: "zip (ph ! i) (vtup @ vtdown)
             = zip (take p (ph ! i)) vtup @ zip (drop p (ph ! i)) vtdown"
    using assms(3,4) li
    by (metis append_take_drop_id length_take min.absorb2 zip_append)
  show "map (take p) (shift_site ph i (vtup @ vtdown)) = shift_site (map (take p) ph) i vtup"
    using assms la li by (simp add: shift_site_def map_update z)
  show "map (drop p) (shift_site ph i (vtup @ vtdown)) = shift_site (map (drop p) ph) i vtdown"
    using assms la li by (simp add: shift_site_def map_update z)
qed


lemma update_inverse_overlap_matches:
  fixes w :: "'a sd_walker_scheme"
  assumes t: "is_mat nb ne T" and p: "is_mat nb ne (phi w)" and i: "i < nb"
    and nu: "nup w \<le> ne" and vu: "length vtup = nup w" and vd: "length vtdown = ne - nup w"
    and l2: "length (inv_ovlp w) = 2"
    and up: "is_inverse (nup w) (overlap_up T (phi w) (nup w)) (inv_ovlp w ! 0)"
    and dn: "is_inverse (ne - nup w) (overlap_down T (phi w) (nup w)) (inv_ovlp w ! 1)"
    and du: "1 + vdot (vec_mat vtup (inv_ovlp w ! 0)) (map cnj (take (nup w) (T ! i))) \<noteq> 0"
    and dd: "1 + vdot (vec_mat vtdown (inv_ovlp w ! 1)) (map cnj (drop (nup w) (T ! i))) \<noteq> 0"
    and ph: "ph' = shift_site (phi w) i (vtup @ vtdown)"
  shows "is_inverse (nup w) (overlap_up T ph' (nup w))
           (inv_ovlp (update_inverse_overlap T vtup vtdown i w) ! 0)"
    and "is_inverse (ne - nup w) (overlap_down T ph' (nup w))
           (inv_ovlp (update_inverse_overlap T vtup vtdown i w) ! 1)"
    and "inverts_at linv (nup w) (overlap_up T ph' (nup w))
         \<Longrightarrow> inverts_at linv (ne - nup w) (overlap_down T ph' (nup w))
         \<Longrightarrow> inverse_overlap linv T (w\<lparr>phi := ph'\<rparr>)
               = (None, (update_inverse_overlap T vtup vtdown i w)\<lparr>phi := ph'\<rparr>)"
proof -
  let ?n = "nup w"
  let ?uu = "map cnj (take ?n (T ! i))"
  let ?ud = "map cnj (drop ?n (T ! i))"
  let ?a = "sherman_morrison (inv_ovlp w ! 0) ?uu vtup"
  let ?b = "sherman_morrison (inv_ovlp w ! 1) ?ud vtdown"
  have lt: "length T = nb" and lti: "length (T ! i) = ne"
    using t i by (simp_all add: is_mat_def)
  have tu: "is_mat nb ?n (map (take ?n) T)" and pu: "is_mat nb ?n (map (take ?n) (phi w))"
    using take_cols_mat(1) [OF t nu] take_cols_mat(1) [OF p nu] by simp_all
  have td: "is_mat nb (ne - ?n) (map (drop ?n) T)"
    and pd: "is_mat nb (ne - ?n) (map (drop ?n) (phi w))"
    using drop_cols_mat(1) [OF t nu] drop_cols_mat(1) [OF p nu] by simp_all
  have ou: "overlap_up T ph' ?n
              = mat_add (overlap_up T (phi w) ?n) (outer ?uu vtup)"
    unfolding overlap_up_def ph shift_site_take(1) [OF p i vu nu vd]
    using overlap_rank_one [OF tu pu i vu] i lt by simp
  have od: "overlap_down T ph' ?n
              = mat_add (overlap_down T (phi w) ?n) (outer ?ud vtdown)"
    unfolding overlap_down_def ph shift_site_take(2) [OF p i vu nu vd]
    using overlap_rank_one [OF td pd i vd] i lt by simp
  have luu: "length ?uu = ?n" using lti nu by simp
  have lud: "length ?ud = ne - ?n" using lti by simp
  have ia: "is_inverse ?n (overlap_up T ph' ?n) ?a"
    unfolding ou by (rule sherman_morrison_inverse [OF up luu vu du])
  have ib: "is_inverse (ne - ?n) (overlap_down T ph' ?n) ?b"
    unfolding od by (rule sherman_morrison_inverse [OF dn lud vd dd])
  have e: "inv_ovlp (update_inverse_overlap T vtup vtdown i w) = (inv_ovlp w)[0 := ?a, 1 := ?b]"
    using l2 by (simp add: update_inverse_overlap_def Let_def)
  have e0: "inv_ovlp (update_inverse_overlap T vtup vtdown i w) ! 0 = ?a"
    and e1: "inv_ovlp (update_inverse_overlap T vtup vtdown i w) ! 1 = ?b"
    using l2 by (simp_all add: e)
  show "is_inverse ?n (overlap_up T ph' ?n)
           (inv_ovlp (update_inverse_overlap T vtup vtdown i w) ! 0)"
    using ia e0 by simp
  show "is_inverse (ne - ?n) (overlap_down T ph' ?n)
           (inv_ovlp (update_inverse_overlap T vtup vtdown i w) ! 1)"
    using ib e1 by simp
  assume cu: "inverts_at linv ?n (overlap_up T ph' ?n)"
    and cd: "inverts_at linv (ne - ?n) (overlap_down T ph' ?n)"
  have ra: "linv (overlap_up T ph' ?n) = Inr ?a" using cu ia by (simp add: inverts_at_def)
  have rb: "linv (overlap_down T ph' ?n) = Inr ?b" using cd ib by (simp add: inverts_at_def)
  show "inverse_overlap linv T (w\<lparr>phi := ph'\<rparr>)
          = (None, (update_inverse_overlap T vtup vtdown i w)\<lparr>phi := ph'\<rparr>)"
    using ra rb by (simp add: inverse_overlap_def update_inverse_overlap_def Let_def)
qed

text \<open>
  C1. Over exact field arithmetic: if \<open>Ainv\<close> is the inverse of the square matrix \<open>A\<close>
  and \<open>1 + vt . Ainv . u\<close> is not zero, \<open>sherman_morrison Ainv u vt\<close> is the inverse of
  \<open>A + outer u vt\<close>. Consequently, for a walker whose \<open>inv_ovlp\<close> holds the inverses of
  its two overlap blocks, after row \<open>i\<close> of \<open>phi\<close> has moved by \<open>vtup\<close> followed by
  \<open>vtdown\<close>, recomputing with \<open>inverse_overlap\<close> gives, in each spin block, the matrix
  that \<open>update_inverse_overlap\<close> gives.
\<close>

theorem sherman_morrison_update:
  fixes A :: "'a::field list list" and w :: "'b sd_walker_scheme"
  shows "(is_inverse n A Ainv \<and> length u = n \<and> length vt = n
            \<and> 1 + vdot (vec_mat vt Ainv) u \<noteq> 0
          \<longrightarrow> is_inverse n (mat_add A (outer u vt)) (sherman_morrison Ainv u vt))
       \<and> (is_mat nb ne T \<and> is_mat nb ne (phi w) \<and> i < nb \<and> nup w \<le> ne
            \<and> length vtup = nup w \<and> length vtdown = ne - nup w \<and> length (inv_ovlp w) = 2
            \<and> is_inverse (nup w) (overlap_up T (phi w) (nup w)) (inv_ovlp w ! 0)
            \<and> is_inverse (ne - nup w) (overlap_down T (phi w) (nup w)) (inv_ovlp w ! 1)
            \<and> 1 + vdot (vec_mat vtup (inv_ovlp w ! 0)) (map cnj (take (nup w) (T ! i))) \<noteq> 0
            \<and> 1 + vdot (vec_mat vtdown (inv_ovlp w ! 1)) (map cnj (drop (nup w) (T ! i))) \<noteq> 0
            \<and> ph' = shift_site (phi w) i (vtup @ vtdown)
            \<and> inverts_at linv (nup w) (overlap_up T ph' (nup w))
            \<and> inverts_at linv (ne - nup w) (overlap_down T ph' (nup w))
          \<longrightarrow> inverse_overlap linv T (w\<lparr>phi := ph'\<rparr>)
                = (None, (update_inverse_overlap T vtup vtdown i w)\<lparr>phi := ph'\<rparr>))"
proof (intro conjI impI)
  assume "is_inverse n A Ainv \<and> length u = n \<and> length vt = n
            \<and> 1 + vdot (vec_mat vt Ainv) u \<noteq> 0"
  then show "is_inverse n (mat_add A (outer u vt)) (sherman_morrison Ainv u vt)"
    using sherman_morrison_inverse by blast
next
  assume h: "is_mat nb ne T \<and> is_mat nb ne (phi w) \<and> i < nb \<and> nup w \<le> ne
            \<and> length vtup = nup w \<and> length vtdown = ne - nup w \<and> length (inv_ovlp w) = 2
            \<and> is_inverse (nup w) (overlap_up T (phi w) (nup w)) (inv_ovlp w ! 0)
            \<and> is_inverse (ne - nup w) (overlap_down T (phi w) (nup w)) (inv_ovlp w ! 1)
            \<and> 1 + vdot (vec_mat vtup (inv_ovlp w ! 0)) (map cnj (take (nup w) (T ! i))) \<noteq> 0
            \<and> 1 + vdot (vec_mat vtdown (inv_ovlp w ! 1)) (map cnj (drop (nup w) (T ! i))) \<noteq> 0
            \<and> ph' = shift_site (phi w) i (vtup @ vtdown)
            \<and> inverts_at linv (nup w) (overlap_up T ph' (nup w))
            \<and> inverts_at linv (ne - nup w) (overlap_down T ph' (nup w))"
  then have t: "is_mat nb ne T" and p: "is_mat nb ne (phi w)" and i: "i < nb"
    and nu: "nup w \<le> ne" and vu: "length vtup = nup w" and vd: "length vtdown = ne - nup w"
    and l2: "length (inv_ovlp w) = 2"
    and up: "is_inverse (nup w) (overlap_up T (phi w) (nup w)) (inv_ovlp w ! 0)"
    and dn: "is_inverse (ne - nup w) (overlap_down T (phi w) (nup w)) (inv_ovlp w ! 1)"
    and du: "1 + vdot (vec_mat vtup (inv_ovlp w ! 0)) (map cnj (take (nup w) (T ! i))) \<noteq> 0"
    and dd: "1 + vdot (vec_mat vtdown (inv_ovlp w ! 1)) (map cnj (drop (nup w) (T ! i))) \<noteq> 0"
    and ph: "ph' = shift_site (phi w) i (vtup @ vtdown)"
    and cu: "inverts_at linv (nup w) (overlap_up T ph' (nup w))"
    and cd: "inverts_at linv (ne - nup w) (overlap_down T ph' (nup w))"
    by blast+
  show "inverse_overlap linv T (w\<lparr>phi := ph'\<rparr>)
                = (None, (update_inverse_overlap T vtup vtdown i w)\<lparr>phi := ph'\<rparr>)"
    by (rule update_inverse_overlap_matches(3) [OF t p i nu vu vd l2 up dn du dd ph cu cd])
qed


lemma inv_1x1_inverts: "inverts_at inv_1x1 1 [[m]]"
  unfolding inverts_at_def
proof (intro allI impI)
  fix X assume h: "is_inverse 1 [[m]] X"
  then have "is_mat 1 1 X" by (simp add: is_inverse_def)
  then obtain x where x: "X = [[x]]" by (auto simp: is_mat_def length_Suc_conv)
  have "mat_mul [[m]] X = mat_id 1" using h by (simp add: is_inverse_def)
  then have mx: "m * x = 1"
    by (simp add: x mat_mul_def vdot_def col_def ncols_def mat_id_def)
  then have "m \<noteq> 0" by auto
  moreover have "x = 1 / m" using mx \<open>m \<noteq> 0\<close> by (simp add: field_simps)
  ultimately show "inv_1x1 [[m]] = Inr X" by (simp add: inv_1x1_def x)
qed

theorem sherman_morrison_update_witness:
  "is_inverse 2 [[1, 0], [0, 1 :: real]] [[1, 0], [0, 1]]
   \<and> 1 + vdot (vec_mat [0, 1] [[1, 0], [0, 1 :: real]]) [1, 0] \<noteq> 0
   \<and> sherman_morrison [[1, 0], [0, 1 :: real]] [1, 0] [0, 1] = [[1, - 1], [0, 1]]
   \<and> is_inverse 2 (mat_add [[1, 0], [0, 1 :: real]] (outer [1, 0] [0, 1]))
        (sherman_morrison [[1, 0], [0, 1]] [1, 0] [0, 1])
   \<and> is_mat 2 2 T_two \<and> is_mat 2 2 (phi w_two)
   \<and> is_inverse 1 (overlap_up T_two (phi w_two) 1) (inv_ovlp w_two ! 0)
   \<and> is_inverse 1 (overlap_down T_two (phi w_two) 1) (inv_ovlp w_two ! 1)
   \<and> shift_site (phi w_two) 0 ([1] @ [3]) = [[2, 3], [0, 1]]
   \<and> update_inverse_overlap T_two [1] [3] 0 w_two = w_two\<lparr>inv_ovlp := [[[1 / 2]], [[1]]]\<rparr>
   \<and> inverse_overlap inv_1x1 T_two (w_two\<lparr>phi := [[2, 3], [0, 1]]\<rparr>)
        = (None, (update_inverse_overlap T_two [1] [3] 0 w_two)\<lparr>phi := [[2, 3], [0, 1]]\<rparr>)"
proof -
  have ev: "mat_mul [[1, 0], [0, 1 :: real]] [[1, 0], [0, 1]] = mat_id 2"
    by (simp add: mat_mul_def vdot_def col_def ncols_def mat_id_def numeral_2_eq_2)
  have i2: "is_inverse 2 [[1, 0], [0, 1 :: real]] [[1, 0], [0, 1]]"
    by (simp add: is_inverse_def is_mat_def ev)
  have d: "1 + vdot (vec_mat [0, 1] [[1, 0], [0, 1 :: real]]) [1, 0] \<noteq> 0"
    by (simp add: vec_mat_def vdot_def col_def ncols_def numeral_2_eq_2)
  have s: "sherman_morrison [[1, 0], [0, 1 :: real]] [1, 0] [0, 1] = [[1, - 1], [0, 1]]"
    by (simp add: sherman_morrison_def mat_sub_def mat_sdiv_def mat_mul_def outer_def
          vec_mat_def vdot_def col_def ncols_def numeral_2_eq_2)
  have t: "is_mat 2 2 T_two" and p: "is_mat 2 2 (phi w_two)"
    by (simp_all add: is_mat_def T_two_def w_two_def)
  have ou: "overlap_up T_two (phi w_two) 1 = [[1]]" and od: "overlap_down T_two (phi w_two) 1 = [[1]]"
    by (simp_all add: overlap_up_def overlap_down_def T_two_def w_two_def mat_mul_def mat_T_def
          mat_conj_def vdot_def col_def ncols_def)
  have one: "is_inverse 1 [[1 :: complex]] [[1]]"
    by (simp add: is_inverse_def is_mat_def mat_mul_def vdot_def col_def ncols_def mat_id_def)
  have up: "is_inverse (nup w_two) (overlap_up T_two (phi w_two) (nup w_two)) (inv_ovlp w_two ! 0)"
    and dn: "is_inverse (2 - nup w_two) (overlap_down T_two (phi w_two) (nup w_two)) (inv_ovlp w_two ! 1)"
    using ou od one by (simp_all add: w_two_def)
  have sh: "shift_site (phi w_two) 0 ([1] @ [3]) = [[2, 3], [0, 1]]"
    by (simp add: shift_site_def w_two_def)
  have u: "update_inverse_overlap T_two [1] [3] 0 w_two = w_two\<lparr>inv_ovlp := [[[1 / 2]], [[1]]]\<rparr>"
    by (simp add: update_inverse_overlap_def Let_def T_two_def w_two_def sherman_morrison_def
          mat_sub_def mat_sdiv_def mat_mul_def outer_def vec_mat_def vdot_def col_def ncols_def)
  have du: "1 + vdot (vec_mat [1] (inv_ovlp w_two ! 0)) (map cnj (take (nup w_two) (T_two ! 0))) \<noteq> 0"
    and dd: "1 + vdot (vec_mat [3] (inv_ovlp w_two ! 1)) (map cnj (drop (nup w_two) (T_two ! 0))) \<noteq> 0"
    by (simp_all add: T_two_def w_two_def vec_mat_def vdot_def col_def ncols_def)
  have ou': "overlap_up T_two [[2, 3], [0, 1]] (nup w_two) = [[2]]"
    and od': "overlap_down T_two [[2, 3], [0, 1]] (nup w_two) = [[1]]"
    by (simp_all add: overlap_up_def overlap_down_def T_two_def w_two_def mat_mul_def mat_T_def
          mat_conj_def vdot_def col_def ncols_def)
  have cu: "inverts_at inv_1x1 (nup w_two) (overlap_up T_two [[2, 3], [0, 1]] (nup w_two))"
    and cd: "inverts_at inv_1x1 (2 - nup w_two) (overlap_down T_two [[2, 3], [0, 1]] (nup w_two))"
    unfolding ou' od' using inv_1x1_inverts by (simp_all add: w_two_def)
  have misc: "(0::nat) < 2" "nup w_two \<le> 2" "length [1 :: complex] = nup w_two"
    "length [3 :: complex] = 2 - nup w_two" "length (inv_ovlp w_two) = 2"
    by (simp_all add: w_two_def)
  from sherman_morrison_update [where n = 2 and A = "[[1, 0], [0, 1 :: real]]"
      and Ainv = "[[1, 0], [0, 1]]" and u = "[1, 0]" and vt = "[0, 1]"
      and nb = 2 and ne = 2 and T = T_two and w = w_two and i = 0 and vtup = "[1]"
      and vtdown = "[3]" and ph' = "[[2, 3], [0, 1]]" and linv = inv_1x1]
  have r1: "is_inverse 2 (mat_add [[1, 0], [0, 1 :: real]] (outer [1, 0] [0, 1]))
        (sherman_morrison [[1, 0], [0, 1]] [1, 0] [0, 1])"
    and r2: "inverse_overlap inv_1x1 T_two (w_two\<lparr>phi := [[2, 3], [0, 1]]\<rparr>)
        = (None, (update_inverse_overlap T_two [1] [3] 0 w_two)\<lparr>phi := [[2, 3], [0, 1]]\<rparr>)"
    using i2 d t p up dn du dd sh cu cd misc by simp_all
  have up1: "is_inverse 1 (overlap_up T_two (phi w_two) 1) (inv_ovlp w_two ! 0)"
    and dn1: "is_inverse 1 (overlap_down T_two (phi w_two) 1) (inv_ovlp w_two ! 1)"
    using ou od one by (simp_all add: w_two_def)
  from i2 d s r1 t p up1 dn1 sh u r2 show ?thesis by blast
qed

section \<open>A singular overlap\<close>

lemma no_inverse_zero: "\<nexists>X. is_inverse 1 [[0 :: complex]] X"
proof
  assume "\<exists>X. is_inverse 1 [[0 :: complex]] X"
  then obtain X where h: "is_inverse 1 [[0 :: complex]] X" ..
  then have "is_mat 1 1 X" by (simp add: is_inverse_def)
  then obtain x where x: "X = [[x]]" by (auto simp: is_mat_def length_Suc_conv)
  have "mat_mul [[0]] X = mat_id 1" using h by (simp add: is_inverse_def)
  then show False by (simp add: x mat_mul_def vdot_def col_def ncols_def mat_id_def)
qed

text \<open>
  C8, as the code has it. When one of the two overlap blocks of a walker has no inverse,
  \<open>inverse_overlap\<close> does not return normally: the \<open>LinAlgError\<close> of the inversion
  reaches the caller, and the walker keeps its weight, its \<open>alive\<close> flag and its
  amplitude; nothing sets the weight to 0 or marks the walker dead.
\<close>

theorem inverse_overlap_singular_raises:
  fixes w :: "'a sd_walker_scheme"
  assumes "inverts_at linv ku (overlap_up T (phi w) (nup w))"
    and "raises_at linv ku (overlap_up T (phi w) (nup w))"
    and "raises_at linv kd (overlap_down T (phi w) (nup w))"
    and "(\<nexists>X. is_inverse ku (overlap_up T (phi w) (nup w)) X)
         \<or> (\<nexists>X. is_inverse kd (overlap_down T (phi w) (nup w)) X)"
  shows "\<exists>w'. inverse_overlap linv T w = (Some LinAlgError, w')
           \<and> weight w' = weight w \<and> alive w' = alive w \<and> phi w' = phi w"
proof (cases "\<exists>X. is_inverse ku (overlap_up T (phi w) (nup w)) X")
  case False
  then have "linv (overlap_up T (phi w) (nup w)) = Inl LinAlgError"
    using assms(2) by (simp add: raises_at_def)
  then have "inverse_overlap linv T w = (Some LinAlgError, w)"
    by (simp add: inverse_overlap_def)
  then show ?thesis by simp
next
  case True
  then obtain X where "is_inverse ku (overlap_up T (phi w) (nup w)) X" ..
  then have u: "linv (overlap_up T (phi w) (nup w)) = Inr X"
    using assms(1) by (simp add: inverts_at_def)
  have "\<nexists>X. is_inverse kd (overlap_down T (phi w) (nup w)) X" using True assms(4) by blast
  then have d: "linv (overlap_down T (phi w) (nup w)) = Inl LinAlgError"
    using assms(3) by (simp add: raises_at_def)
  have "inverse_overlap linv T w = (Some LinAlgError, w\<lparr>inv_ovlp := (inv_ovlp w)[0 := X]\<rparr>)"
    using u d by (simp add: inverse_overlap_def Let_def)
  then show ?thesis by simp
qed

theorem inverse_overlap_singular_raises_witness:
  "inverts_at inv_1x1 1 (overlap_up T_two (phi w_sing) (nup w_sing))
   \<and> raises_at inv_1x1 1 (overlap_up T_two (phi w_sing) (nup w_sing))
   \<and> raises_at inv_1x1 1 (overlap_down T_two (phi w_sing) (nup w_sing))
   \<and> (\<nexists>X. is_inverse 1 (overlap_up T_two (phi w_sing) (nup w_sing)) X)
   \<and> (\<exists>w'. inverse_overlap inv_1x1 T_two w_sing = (Some LinAlgError, w')
           \<and> weight w' = 1 \<and> alive w' = 1)"
proof -
  have ou: "overlap_up T_two (phi w_sing) (nup w_sing) = [[0]]"
    and od: "overlap_down T_two (phi w_sing) (nup w_sing) = [[1]]"
    by (simp_all add: overlap_up_def overlap_down_def T_two_def w_sing_def w_two_def mat_mul_def
          mat_T_def mat_conj_def vdot_def col_def ncols_def)
  have a: "inverts_at inv_1x1 1 (overlap_up T_two (phi w_sing) (nup w_sing))"
    unfolding ou by (rule inv_1x1_inverts)
  have b: "raises_at inv_1x1 1 (overlap_up T_two (phi w_sing) (nup w_sing))"
    unfolding ou by (simp add: raises_at_def inv_1x1_def)
  have one: "is_inverse 1 [[1 :: complex]] [[1]]"
    by (simp add: is_inverse_def is_mat_def mat_mul_def vdot_def col_def ncols_def mat_id_def)
  have c: "raises_at inv_1x1 1 (overlap_down T_two (phi w_sing) (nup w_sing))"
    unfolding od raises_at_def using one by blast
  have d: "\<nexists>X. is_inverse 1 (overlap_up T_two (phi w_sing) (nup w_sing)) X"
    unfolding ou by (rule no_inverse_zero)
  have d': "(\<nexists>X. is_inverse 1 (overlap_up T_two (phi w_sing) (nup w_sing)) X)
         \<or> (\<nexists>X. is_inverse 1 (overlap_down T_two (phi w_sing) (nup w_sing)) X)"
    using d by blast
  from inverse_overlap_singular_raises [OF a b c d'] obtain w' where
    "inverse_overlap inv_1x1 T_two w_sing = (Some LinAlgError, w')"
    "weight w' = weight w_sing" "alive w' = alive w_sing" by blast
  then have "\<exists>w'. inverse_overlap inv_1x1 T_two w_sing = (Some LinAlgError, w')
           \<and> weight w' = 1 \<and> alive w' = 1"
    by (auto simp: w_sing_def w_two_def)
  with a b c d show ?thesis by blast
qed

text \<open>
  A walker with a singular up overlap: the call raises and the walker is left with weight 1
  and \<open>alive = 1\<close>.
\<close>

theorem inverse_overlap_singular_counterexample:
  "inverse_overlap inv_1x1 T_two w_sing = (Some LinAlgError, w_sing)
   \<and> weight w_sing = 1 \<and> alive w_sing = 1
   \<and> overlap_up T_two (phi w_sing) (nup w_sing) = [[0]]"
  by (simp add: inverse_overlap_def overlap_up_def T_two_def w_sing_def w_two_def mat_mul_def
        mat_T_def mat_conj_def vdot_def col_def ncols_def inv_1x1_def)


section \<open>The continuous propagator never reaches its weight update\<close>

lemma two_body_unbound_name:
  assumes "shifted env = None"
  shows "two_body_propagator env self w sys fb xi
           = (if \<not> numpy env then Inl (NameError ''numpy'')
              else if fb \<and> propagator self = None then Inl (AttributeError ''propagator'')
              else if fb \<and> length (construct_force_bias (the (propagator self)) sys (G w))
                              < nfields sys
                   then Inl IndexError
              else Inl (NameError ''shifted''))"
  using assms by (simp add: two_body_propagator_def Let_def split: option.splits)

lemma two_body_as_shipped:
  "two_body_propagator continuous_py self w sys fb xi = Inl (NameError ''numpy'')"
  by (simp add: two_body_propagator_def continuous_py_def)

lemma Continuous_init_unassigned:
  "Continuous_init env opts qmc sys0 psi verbose cobp = Inr self0
     \<Longrightarrow> propagator self0 = None \<and> mf_shift self0 = None"
  by (auto simp: Continuous_init_def Let_def split: option.splits if_splits)

lemma propagate_walker_free_stops:
  assumes "shifted env = None"
  shows "\<exists>e w1. propagate_walker_free env ovf linv det self w sys T xi = (Some e, self, w1)
           \<and> weight w1 = weight w \<and> phase w1 = phase w \<and> ot w1 = ot w"
  by (cases "kinetic_real env")
     (simp_all add: propagate_walker_free_def Let_def two_body_unbound_name [OF assms])

lemma propagate_walker_phaseless_stops:
  assumes "shifted env = None"
  shows "\<exists>e w1. propagate_walker_phaseless env ovf linv det self w sys T xi = (Some e, self, w1)
           \<and> weight w1 = weight w \<and> phase w1 = phase w \<and> ot w1 = ot w"
  by (cases "kinetic_real env")
     (simp_all add: propagate_walker_phaseless_def Let_def two_body_unbound_name [OF assms])

text \<open>
  C10. Every call of \<open>two_body_propagator\<close> raises a \<open>NameError\<close> before any propagator
  is applied: in the module as it stands the first statement already reads the unbound name
  \<open>numpy\<close>. The name \<open>shifted\<close> is bound nowhere, so whatever else the module binds, a
  call never returns, and a call that reaches the statement with \<open>shifted\<close> (the force bias
  off, or the object has a \<open>propagator\<close> whose force bias has an entry for each field)
  raises the \<open>NameError\<close> there. The constructor assigns neither \<open>mf_shift\<close> nor
  \<open>propagator\<close>, and in the module as it stands it raises a \<open>NameError\<close> itself. Both
  \<open>propagate_walker_free\<close> and \<open>propagate_walker_phaseless\<close> therefore stop with an
  exception, a \<open>NameError\<close> in the module as it stands, and leave the walker's weight, phase
  and overlap as they were.
\<close>

theorem two_body_propagator_raises:
  "two_body_propagator continuous_py self w sys fb xi = Inl (NameError ''numpy'')
   \<and> (shifted env = None \<longrightarrow> (\<exists>e. two_body_propagator env self w sys fb xi = Inl e))
   \<and> (shifted env = None \<and> numpy env
        \<and> (fb \<longrightarrow> (\<exists>p. propagator self = Some p
                        \<and> nfields sys \<le> length (construct_force_bias p sys (G w))))
      \<longrightarrow> two_body_propagator env self w sys fb xi = Inl (NameError ''shifted''))
   \<and> Continuous_init continuous_py opts qmc sys0 psi verbose cobp = Inl (NameError ''numpy'')
   \<and> (\<forall>self0. Continuous_init env opts qmc sys0 psi verbose cobp = Inr self0
         \<longrightarrow> propagator self0 = None \<and> mf_shift self0 = None)
   \<and> propagate_walker_free continuous_py ovf linv det self w' sys T xi
       = (Some (NameError ''kinetic_real''), self, w')
   \<and> propagate_walker_phaseless continuous_py ovf linv det self w' sys T xi
       = (Some (NameError ''kinetic_real''), self, w')
   \<and> (shifted env = None
      \<longrightarrow> (\<exists>e w1. propagate_walker_free env ovf linv det self w' sys T xi = (Some e, self, w1)
              \<and> weight w1 = weight w' \<and> phase w1 = phase w' \<and> ot w1 = ot w')
        \<and> (\<exists>e w1. propagate_walker_phaseless env ovf linv det self w' sys T xi = (Some e, self, w1)
              \<and> weight w1 = weight w' \<and> phase w1 = phase w' \<and> ot w1 = ot w'))"
proof (intro conjI impI allI)
  show "two_body_propagator continuous_py self w sys fb xi = Inl (NameError ''numpy'')"
    by (rule two_body_as_shipped)
next
  assume "shifted env = None"
  then show "\<exists>e. two_body_propagator env self w sys fb xi = Inl e"
    by (simp add: two_body_unbound_name)
next
  assume a: "shifted env = None \<and> numpy env
        \<and> (fb \<longrightarrow> (\<exists>p. propagator self = Some p
                        \<and> nfields sys \<le> length (construct_force_bias p sys (G w))))"
  then have s: "shifted env = None" by blast
  show "two_body_propagator env self w sys fb xi = Inl (NameError ''shifted'')"
    using a by (auto simp: two_body_unbound_name [OF s])
next
  show "Continuous_init continuous_py opts qmc sys0 psi verbose cobp = Inl (NameError ''numpy'')"
    by (simp add: Continuous_init_def continuous_py_def)
next
  fix self0
  assume "Continuous_init env opts qmc sys0 psi verbose cobp = Inr self0"
  then show "propagator self0 = None" "mf_shift self0 = None"
    using Continuous_init_unassigned by blast+
next
  show "propagate_walker_free continuous_py ovf linv det self w' sys T xi
       = (Some (NameError ''kinetic_real''), self, w')"
    by (simp add: propagate_walker_free_def continuous_py_def)
next
  show "propagate_walker_phaseless continuous_py ovf linv det self w' sys T xi
       = (Some (NameError ''kinetic_real''), self, w')"
    by (simp add: propagate_walker_phaseless_def continuous_py_def)
next
  assume s: "shifted env = None"
  show "\<exists>e w1. propagate_walker_free env ovf linv det self w' sys T xi = (Some e, self, w1)
              \<and> weight w1 = weight w' \<and> phase w1 = phase w' \<and> ot w1 = ot w'"
    by (rule propagate_walker_free_stops [OF s])
  show "\<exists>e w1. propagate_walker_phaseless env ovf linv det self w' sys T xi = (Some e, self, w1)
              \<and> weight w1 = weight w' \<and> phase w1 = phase w' \<and> ot w1 = ot w'"
    by (rule propagate_walker_phaseless_stops [OF s])
qed

theorem two_body_propagator_raises_witness:
  "shifted env_c = None \<and> numpy env_c
   \<and> propagator (self_c\<lparr>propagator := Some p_c\<rparr>) = Some p_c
   \<and> nfields sys_c \<le> length (construct_force_bias p_c sys_c (G w_c))
   \<and> two_body_propagator env_c (self_c\<lparr>propagator := Some p_c\<rparr>) w_c sys_c True [0, 0]
       = Inl (NameError ''shifted'')
   \<and> two_body_propagator env_c self_c w_c sys_c False [0, 0] = Inl (NameError ''shifted'')
   \<and> two_body_propagator continuous_py self_c w_c sys_c True [0, 0] = Inl (NameError ''numpy'')
   \<and> Continuous_init env_c \<lparr>opt_free_projection = None, opt_expansion_order = None\<rparr>
        \<lparr>q_dt = 1, q_nstblz = 10\<rparr> sys_c T_two False (Some cobp_c) = Inr self_c
   \<and> propagator self_c = None \<and> mf_shift self_c = None
   \<and> (\<exists>e w1. propagate_walker_free env_c (\<lambda>x. False) inv_1x1 det_1x1 self_c w_c sys_c T_two [0, 0]
                = (Some e, self_c, w1) \<and> weight w1 = weight w_c)
   \<and> (\<exists>e w1. propagate_walker_phaseless env_c (\<lambda>x. False) inv_1x1 det_1x1 self_c w_c sys_c T_two [0, 0]
                = (Some e, self_c, w1) \<and> weight w1 = weight w_c)"
proof -
  have h: "shifted env_c = None" "numpy env_c" by (simp_all add: env_c_def)
  have i: "Continuous_init env_c \<lparr>opt_free_projection = None, opt_expansion_order = None\<rparr>
        \<lparr>q_dt = 1, q_nstblz = 10\<rparr> sys_c T_two False (Some cobp_c) = Inr self_c"
    by (simp add: Continuous_init_def self_c_def sys_c_def T_two_def cobp_c_def env_c_def
          numeral_2_eq_2)
  have p: "propagator (self_c\<lparr>propagator := Some p_c\<rparr>) = Some p_c" by simp
  have n: "nfields sys_c \<le> length (construct_force_bias p_c sys_c (G w_c))"
    by (simp add: sys_c_def p_c_def)
  have hp: "shifted env_c = None \<and> numpy env_c
        \<and> (True \<longrightarrow> (\<exists>p. propagator (self_c\<lparr>propagator := Some p_c\<rparr>) = Some p
                        \<and> nfields sys_c \<le> length (construct_force_bias p sys_c (G w_c))))"
    using h p n by simp
  from two_body_propagator_raises [where env = env_c and fb = True
      and self = "self_c\<lparr>propagator := Some p_c\<rparr>" and w = w_c and sys = sys_c and xi = "[0, 0]"]
  have a: "two_body_propagator env_c (self_c\<lparr>propagator := Some p_c\<rparr>) w_c sys_c True [0, 0]
       = Inl (NameError ''shifted'')"
    using hp by blast
  have hf: "shifted env_c = None \<and> numpy env_c
        \<and> (False \<longrightarrow> (\<exists>p. propagator self_c = Some p
                        \<and> nfields sys_c \<le> length (construct_force_bias p sys_c (G w_c))))"
    using h by simp
  note t = two_body_propagator_raises [where env = env_c and fb = False and self = self_c
      and w = w_c and sys = sys_c and xi = "[0, 0]" and linv = inv_1x1 and det = det_1x1
      and w' = w_c and T = T_two and ovf = "\<lambda>x. False"
      and opts = "\<lparr>opt_free_projection = None, opt_expansion_order = None\<rparr>"
      and qmc = "\<lparr>q_dt = 1, q_nstblz = 10\<rparr>" and sys0 = sys_c and psi = T_two
      and verbose = False and cobp = "Some cobp_c"]
  from t have b: "two_body_propagator env_c self_c w_c sys_c False [0, 0] = Inl (NameError ''shifted'')"
    using hf by blast
  from t have d: "propagator self_c = None \<and> mf_shift self_c = None"
    using i by blast
  from t h(1) have f: "\<exists>e w1. propagate_walker_free env_c (\<lambda>x. False) inv_1x1 det_1x1 self_c w_c sys_c T_two [0, 0]
                = (Some e, self_c, w1) \<and> weight w1 = weight w_c"
    by blast
  from t h(1) have g: "\<exists>e w1. propagate_walker_phaseless env_c (\<lambda>x. False) inv_1x1 det_1x1 self_c w_c sys_c T_two [0, 0]
                = (Some e, self_c, w1) \<and> weight w1 = weight w_c"
    by blast
  from two_body_propagator_raises [where self = self_c and w = w_c and sys = sys_c
      and fb = True and xi = "[0, 0]"]
  have c: "two_body_propagator continuous_py self_c w_c sys_c True [0, 0] = Inl (NameError ''numpy'')"
    by blast
  from h p n a b c i d f g show ?thesis by blast
qed

lemma phaseless_update_rule:
  assumes "inverse_overlap linv T w3 = (None, w4)" and "w5 = greens_function T w4"
    and "cmath env" and "math env"
    and "clog (calc_otrial det w5) = Inr log_new" and "clog (ot w5) = Inr log_old"
    and "hybrid = log_new - log_old + cfb + cmf"
    and "magn = cmod (mf_const_fac self * exp hybrid)"
    and "\<not> ovf (cmod (exp hybrid))" and "\<not> ovf (cmod (exp (hybrid - cfb)))"
    and "mf_const_fac self \<noteq> 0"
  shows "phaseless_update env ovf linv det self w3 T cmf cfb
           = (None, if \<not> ovf magn
                    then w5\<lparr>weight := weight w5 * (magn * max 0 (cos (Arg (exp (hybrid - cfb))))),
                            ot := calc_otrial det w5\<rparr>
                    else w5\<lparr>ot := calc_otrial det w5, weight := 0\<rparr>)"
  using assms by (simp add: phaseless_update_def cexp_def Let_def)

text \<open>
  C4, on the code. The hybrid update is written as the claim describes it
  (\<open>phaseless_update_rule\<close>), but a phaseless step never reaches it. In the module as it
  stands the step raises at the unbound name \<open>kinetic_real\<close>. With the missing names
  supplied and the object as the constructor leaves it, it raises at \<open>self.propagator\<close>,
  and with a propagator supplied as well it raises at the unbound name \<open>shifted\<close>. The
  walker comes back with its weight and overlap as they were in every case.
\<close>

theorem propagate_walker_phaseless_raises:
  "propagate_walker_phaseless continuous_py ovf inv_1x1 det_1x1 self_c w_c sys_c T_two [0, 0]
     = (Some (NameError ''kinetic_real''), self_c, w_c)
   \<and> propagate_walker_phaseless env_c ovf inv_1x1 det_1x1 self_c w_c sys_c T_two [0, 0]
     = (Some (AttributeError ''propagator''), self_c, w_c)
   \<and> propagate_walker_phaseless env_c ovf inv_1x1 det_1x1 (self_c\<lparr>propagator := Some p_c\<rparr>)
        w_c sys_c T_two [0, 0]
     = (Some (NameError ''shifted''), self_c\<lparr>propagator := Some p_c\<rparr>, w_c)"
  by (simp add: propagate_walker_phaseless_def two_body_propagator_def Let_def env_c_def
        continuous_py_def self_c_def p_c_def sys_c_def w_c_def)

end
